theory Spec2Isabelle
  imports Main "HOL-Library.Sublist"
begin

section \<open>JavaScript strings\<close>

text \<open>
  A JavaScript string is a sequence of UTF-16 code units and \<open>length\<close> counts code units,
  so a string is modelled as a list of code units, each a natural number. \<open>js\<close> turns
  an ASCII literal into such a list and \<open>ch\<close> a single character.
\<close>

type_synonym jchar = nat
type_synonym jstring = "jchar list"

definition ch :: "char \<Rightarrow> jchar" where
  "ch c = of_char c"

definition js :: "string \<Rightarrow> jstring" where
  "js s = map ch s"

text \<open>The character classes of the regular expressions used by the source (no \<open>u\<close> or
  \<open>i\<close> flag anywhere): \<open>\s\<close> (which is also what \<open>trim\<close> removes), the line
  terminators that \<open>.\<close> refuses, \<open>\d\<close> and \<open>\w\<close>.\<close>

definition isSpace :: "jchar \<Rightarrow> bool" where
  "isSpace c = (c = 9 \<or> c = 10 \<or> c = 11 \<or> c = 12 \<or> c = 13 \<or> c = 32 \<or> c = 160 \<or> c = 5760
     \<or> (8192 \<le> c \<and> c \<le> 8202) \<or> c = 8232 \<or> c = 8233 \<or> c = 8239 \<or> c = 8287
     \<or> c = 12288 \<or> c = 65279)"

definition isLineTerminator :: "jchar \<Rightarrow> bool" where
  "isLineTerminator c = (c = 10 \<or> c = 13 \<or> c = 8232 \<or> c = 8233)"

definition isDigit :: "jchar \<Rightarrow> bool" where
  "isDigit c = (48 \<le> c \<and> c \<le> 57)"

definition isWord :: "jchar \<Rightarrow> bool" where
  "isWord c = (isDigit c \<or> (65 \<le> c \<and> c \<le> 90) \<or> (97 \<le> c \<and> c \<le> 122) \<or> c = 95)"

text \<open>\<open>String.prototype.trim\<close>.\<close>

definition trim :: "jstring \<Rightarrow> jstring" where
  "trim s = rev (dropWhile isSpace (rev (dropWhile isSpace s)))"

text \<open>\<open>String(n)\<close> for a non-negative integer \<open>n\<close> (decimal digits), and \<open>parseInt\<close>
  on a string of decimal digits.\<close>

function numToString :: "nat \<Rightarrow> jstring" where
  "numToString n = (if n < 10 then [48 + n] else numToString (n div 10) @ [48 + n mod 10])"
  by pat_completeness auto
termination
  by (relation "measure (\<lambda>n. n)") auto

declare numToString.simps [simp del]

definition parseInt :: "jstring \<Rightarrow> nat" where
  "parseInt ds = foldl (\<lambda>acc d. acc * 10 + (d - 48)) 0 ds"

text \<open>\<open>Array.prototype.join\<close>.\<close>

fun join :: "jstring \<Rightarrow> jstring list \<Rightarrow> jstring" where
  "join sep [] = []"
| "join sep [x] = x"
| "join sep (x # y # ys) = x @ sep @ join sep (y # ys)"

section \<open>Global regular-expression replacement\<close>

text \<open>
  \<open>s.replace(/re/g, r)\<close> scans \<open>s\<close> from the left; at each position it tries the
  expression, and on success emits the replacement and continues after the match, and on
  failure copies one code unit and moves on. A matcher is the expression tried at one
  position: it sees the code unit before the position (for \<open>^\<close> and look-behind) and
  the rest of the string, and yields the length of the match with its captures. An empty
  match (none of the expressions below has one) is followed by copying one code unit, as
  in JavaScript.
\<close>

type_synonym 'g matcher = "jchar option \<Rightarrow> jstring \<Rightarrow> (nat \<times> 'g) option"

datatype 'g piece = Lit jchar | Hit jstring 'g

function matchAll :: "'g matcher \<Rightarrow> jchar option \<Rightarrow> jstring \<Rightarrow> 'g piece list" where
  "matchAll m prev [] = (case m prev [] of None \<Rightarrow> [] | Some (n, g) \<Rightarrow> [Hit [] g])"
| "matchAll m prev (c # cs) =
     (case m prev (c # cs) of
        None \<Rightarrow> Lit c # matchAll m (Some c) cs
      | Some (n, g) \<Rightarrow>
          (if n = 0 then Hit [] g # Lit c # matchAll m (Some c) cs
           else Hit (take n (c # cs)) g
                # matchAll m (Some (last (take n (c # cs)))) (drop n (c # cs))))"
  by pat_completeness auto
termination
  by (relation "measure (\<lambda>(m, prev, s). length s)") auto

fun emit :: "(jstring \<Rightarrow> 'g \<Rightarrow> jstring) \<Rightarrow> 'g piece \<Rightarrow> jstring" where
  "emit f (Lit c) = [c]"
| "emit f (Hit w g) = f w g"

definition replaceAll :: "'g matcher \<Rightarrow> (jstring \<Rightarrow> 'g \<Rightarrow> jstring) \<Rightarrow> jstring \<Rightarrow> jstring" where
  "replaceAll m f s = concat (map (emit f) (matchAll m None s))"

text \<open>\<open>s.split(/re/)\<close> for an expression without captures and without empty matches:
  the pieces between the matches, the last one included.\<close>

fun splitPieces :: "'g piece list \<Rightarrow> jstring \<Rightarrow> jstring list" where
  "splitPieces [] cur = [cur]"
| "splitPieces (Lit c # ps) cur = splitPieces ps (cur @ [c])"
| "splitPieces (Hit w g # ps) cur = cur # splitPieces ps []"

definition splitAll :: "'g matcher \<Rightarrow> jstring \<Rightarrow> jstring list" where
  "splitAll m s = splitPieces (matchAll m None s) []"

subsection \<open>Building blocks of the matchers\<close>

text \<open>A literal at the current position: the rest of the string after it.\<close>

fun afterLit :: "jstring \<Rightarrow> jstring \<Rightarrow> jstring option" where
  "afterLit [] s = Some s"
| "afterLit (p # ps) [] = None"
| "afterLit (p # ps) (c # cs) = (if p = c then afterLit ps cs else None)"

text \<open>\<open>(.+?)\<close> followed by the literal \<open>L\<close> that ends the expression: at least one
  code unit that is not a line terminator, extended one at a time until \<open>L\<close> follows.\<close>

fun dotPlusLazy :: "jstring \<Rightarrow> jstring \<Rightarrow> jstring option" where
  "dotPlusLazy L [] = None"
| "dotPlusLazy L (c # cs) =
     (if isLineTerminator c then None
      else if prefix L cs then Some [c]
      else map_option ((#) c) (dotPlusLazy L cs))"

text \<open>\<open>[\s\S]*?\<close> followed by the literal \<open>L\<close> that ends the expression: everything up
  to the first occurrence of \<open>L\<close>.\<close>

fun anyLazy :: "jstring \<Rightarrow> jstring \<Rightarrow> jstring option" where
  "anyLazy L [] = (if L = [] then Some [] else None)"
| "anyLazy L (c # cs) =
     (if prefix L (c # cs) then Some [] else map_option ((#) c) (anyLazy L cs))"

text \<open>\<open>\s*(.+?)\<close> followed by the closing literal: \<open>\s*\<close> is greedy, so the longest run
  of white space is tried first and shorter ones on backtracking. The result is the
  number of white-space code units consumed and the capture.\<close>

fun wsThenDot :: "jstring \<Rightarrow> jstring \<Rightarrow> (nat \<times> jstring) option" where
  "wsThenDot L [] = None"
| "wsThenDot L (c # cs) =
     (if isSpace c then
        (case wsThenDot L cs of
           Some (k, cap) \<Rightarrow> Some (Suc k, cap)
         | None \<Rightarrow> map_option (Pair 0) (dotPlusLazy L (c # cs)))
      else map_option (Pair 0) (dotPlusLazy L (c # cs)))"

text \<open>A literal expression such as \<open>/&amp;/g\<close>.\<close>

definition litM :: "jstring \<Rightarrow> unit matcher" where
  "litM L prev s = (if L \<noteq> [] \<and> prefix L s then Some (length L, ()) else None)"

section \<open>The content normaliser: \<open>processContent\<close>\<close>

subsection \<open>Inline code protection and restoration\<close>

text \<open>\<open>/`([^`]+)`/g\<close>: a backtick, the longest non-empty run without a backtick, a
  backtick. The run stops only at a backtick or at the end, so no shorter run can
  succeed where the longest fails. The capture is the run.\<close>

definition inlineCodeM :: "jstring matcher" where
  "inlineCodeM prev s =
     (case afterLit (js ''`'') s of
        None \<Rightarrow> None
      | Some r \<Rightarrow>
          (let code = takeWhile (\<lambda>c. c \<noteq> ch CHR ''`'') r in
           if code \<noteq> [] \<and> afterLit (js ''`'') (dropWhile (\<lambda>c. c \<noteq> ch CHR ''`'') r) \<noteq> None
           then Some (1 + length code + 1, code) else None))"

text \<open>The replacer of the first pass pushes the capture onto \<open>codeBlocks\<close> and returns
  the placeholder with the index of the pushed element.\<close>

fun protect :: "jstring piece list \<Rightarrow> jstring list \<Rightarrow> jstring \<times> jstring list" where
  "protect [] codeBlocks = ([], codeBlocks)"
| "protect (Lit c # ps) codeBlocks =
     (case protect ps codeBlocks of (out, cbs) \<Rightarrow> (c # out, cbs))"
| "protect (Hit w code # ps) codeBlocks =
     (case protect ps (codeBlocks @ [code]) of
        (out, cbs) \<Rightarrow>
          (js ''__CODE_BLOCK_'' @ numToString (length (codeBlocks @ [code]) - 1) @ js ''__'' @ out,
           cbs))"

definition protectInlineCode :: "jstring \<Rightarrow> jstring \<times> jstring list" where
  "protectInlineCode s = protect (matchAll inlineCodeM None s) []"

text \<open>\<open>/__CODE_BLOCK_(\d+)__/g\<close>: the digits are greedy and must be followed by two
  underscores; fewer digits would have to be followed by an underscore where a digit
  stands. The replacer indexes \<open>codeBlocks\<close> with \<open>parseInt\<close> of the capture; an index
  out of range reads \<open>undefined\<close>, which the template literal prints as that word.
  (\<open>parseInt\<close> rounds beyond \<open>2^53\<close>, far above any array length, so the exact value
  gives the same lookup.)\<close>

definition placeholderM :: "jstring matcher" where
  "placeholderM prev s =
     (case afterLit (js ''__CODE_BLOCK_'') s of
        None \<Rightarrow> None
      | Some r \<Rightarrow>
          (let ds = takeWhile isDigit r in
           if ds \<noteq> [] \<and> afterLit (js ''__'') (dropWhile isDigit r) \<noteq> None
           then Some (13 + length ds + 2, ds) else None))"

definition restoreCode :: "jstring list \<Rightarrow> jstring \<Rightarrow> jstring \<Rightarrow> jstring" where
  "restoreCode codeBlocks w index =
     js ''<code>''
     @ (if parseInt index < length codeBlocks then codeBlocks ! parseInt index
        else js ''undefined'')
     @ js ''</code>''"

subsection \<open>Headings, emphasis, block quotes, rules\<close>

text \<open>\<open>/<p>#{n}\s*(.+?)<\/p>/g\<close> replaced by \<open><hn>$1</hn>\<close>, for \<open>n\<close> from 6 down to 1.\<close>

definition headingM :: "nat \<Rightarrow> jstring matcher" where
  "headingM n prev s =
     (case afterLit (js ''<p>'' @ replicate n (ch CHR ''#'')) s of
        None \<Rightarrow> None
      | Some r \<Rightarrow>
          (case wsThenDot (js ''</p>'') r of
             None \<Rightarrow> None
           | Some (k, cap) \<Rightarrow> Some (3 + n + k + length cap + 4, cap)))"

definition heading :: "nat \<Rightarrow> jstring \<Rightarrow> jstring" where
  "heading n s =
     replaceAll (headingM n)
       (\<lambda>w cap. js ''<h'' @ numToString n @ js ''>'' @ cap @ js ''</h'' @ numToString n @ js ''>'') s"

text \<open>\<open>/\*\*(.+?)\*\*/g\<close>.\<close>

definition boldM :: "jstring matcher" where
  "boldM prev s =
     (case afterLit (js ''**'') s of
        None \<Rightarrow> None
      | Some r \<Rightarrow>
          (case dotPlusLazy (js ''**'') r of
             None \<Rightarrow> None
           | Some cap \<Rightarrow> Some (2 + length cap + 2, cap)))"

text \<open>\<open>/(?<!\*)\*([^*]+)\*(?!\*)/g\<close>: not after an asterisk; an asterisk, the longest
  non-empty run without an asterisk, an asterisk, and no asterisk next. A shorter run
  would have to be followed by an asterisk inside the run.\<close>

definition italicM :: "jstring matcher" where
  "italicM prev s =
     (if prev = Some (ch CHR ''*'') then None
      else
        (case afterLit (js ''*'') s of
           None \<Rightarrow> None
         | Some r \<Rightarrow>
             (let body = takeWhile (\<lambda>c. c \<noteq> ch CHR ''*'') r in
              case dropWhile (\<lambda>c. c \<noteq> ch CHR ''*'') r of
                [] \<Rightarrow> None
              | star # after \<Rightarrow>
                  (if body \<noteq> [] \<and> (case after of [] \<Rightarrow> True | x # xs \<Rightarrow> x \<noteq> ch CHR ''*'')
                   then Some (1 + length body + 1, body) else None))))"

text \<open>\<open>/<p>&gt;\s*(.+?)<\/p>/g\<close>.\<close>

definition blockquoteM :: "jstring matcher" where
  "blockquoteM prev s =
     (case afterLit (js ''<p>&gt;'') s of
        None \<Rightarrow> None
      | Some r \<Rightarrow>
          (case wsThenDot (js ''</p>'') r of
             None \<Rightarrow> None
           | Some (k, cap) \<Rightarrow> Some (7 + k + length cap + 4, cap)))"

text \<open>\<open>/<p>[-*_]{3,}<\/p>/g\<close>.\<close>

definition isRuleChar :: "jchar \<Rightarrow> bool" where
  "isRuleChar c = (c = ch CHR ''-'' \<or> c = ch CHR ''*'' \<or> c = ch CHR ''_'')"

definition ruleM :: "unit matcher" where
  "ruleM prev s =
     (case afterLit (js ''<p>'') s of
        None \<Rightarrow> None
      | Some r \<Rightarrow>
          (let run = takeWhile isRuleChar r in
           if 3 \<le> length run \<and> afterLit (js ''</p>'') (dropWhile isRuleChar r) \<noteq> None
           then Some (3 + length run + 4, ()) else None))"

subsection \<open>Fenced code blocks\<close>

text \<open>\<open>/<p>(```[\s\S]*?```)<\/p>/g\<close> and the same with tildes, replaced by \<open>$1\<close>: the
  lazy part ends at the first place where the fence and \<open></p>\<close> follow.\<close>

definition wrappedFenceM :: "jstring \<Rightarrow> jstring matcher" where
  "wrappedFenceM fence prev s =
     (case afterLit (js ''<p>'' @ fence) s of
        None \<Rightarrow> None
      | Some r \<Rightarrow>
          (case anyLazy (fence @ js ''</p>'') r of
             None \<Rightarrow> None
           | Some body \<Rightarrow>
               Some (3 + length fence + length body + length fence + 4, fence @ body @ fence)))"

text \<open>\<open>/```(\w+)?\n?([\s\S]*?)```/g\<close>: the word run and the newline are greedy and
  optional. Taking less of either leaves only word characters or a newline in front of
  the lazy part, none of which can start the closing fence, so the greedy choice
  succeeds whenever any choice does. The first capture is \<open>undefined\<close> (here \<open>None\<close>)
  when the word run is empty.\<close>

definition fenceM :: "(jstring option \<times> jstring) matcher" where
  "fenceM prev s =
     (case afterLit (js ''```'') s of
        None \<Rightarrow> None
      | Some r \<Rightarrow>
          (let lang = takeWhile isWord r;
               r1 = dropWhile isWord r;
               nl = (case r1 of [] \<Rightarrow> False | c # cs \<Rightarrow> c = 10);
               r2 = (if nl then tl r1 else r1)
           in case anyLazy (js ''```'') r2 of
                None \<Rightarrow> None
              | Some code \<Rightarrow>
                  Some (3 + length lang + (if nl then 1 else 0) + length code + 3,
                        (if lang = [] then None else Some lang, code))))"

definition escapeHtml :: "jstring \<Rightarrow> jstring" where
  "escapeHtml code =
     replaceAll (litM (js ''>'')) (\<lambda>w g. js ''&gt;'')
       (replaceAll (litM (js ''<'')) (\<lambda>w g. js ''&lt;'')
          (replaceAll (litM (js ''&'')) (\<lambda>w g. js ''&amp;'') (trim code)))"

text \<open>The replacer of the fenced blocks; code unit 34 is the double quote.\<close>

definition fenceBlock :: "jstring \<Rightarrow> (jstring option \<times> jstring) \<Rightarrow> jstring" where
  "fenceBlock w g =
     (case g of
        (lang, code) \<Rightarrow>
          (let language = (case lang of None \<Rightarrow> js ''plaintext'' | Some l \<Rightarrow> l);
               escapedCode = escapeHtml code
           in js ''<pre><code class='' @ [34] @ js ''language-'' @ language @ [34] @ js ''>''
              @ escapedCode @ js ''</code></pre>''))"

subsection \<open>Lists\<close>

text \<open>\<open>/<p>(\d+\.\s+[\s\S]*?)<\/p>/g\<close> and \<open>/<p>([-*]\s+[\s\S]*?)<\/p>/g\<close>: the match runs
  to the first \<open></p>\<close> after the item prefix; white space cannot start \<open></p>\<close>, so
  giving back white space changes nothing. The replacer only reads the whole match.\<close>

definition orderedM :: "unit matcher" where
  "orderedM prev s =
     (case afterLit (js ''<p>'') s of
        None \<Rightarrow> None
      | Some r \<Rightarrow>
          (let ds = takeWhile isDigit r in
           case afterLit (js ''.'') (dropWhile isDigit r) of
             None \<Rightarrow> None
           | Some r2 \<Rightarrow>
               (let ws = takeWhile isSpace r2 in
                case anyLazy (js ''</p>'') (dropWhile isSpace r2) of
                  None \<Rightarrow> None
                | Some body \<Rightarrow>
                    (if ds \<noteq> [] \<and> ws \<noteq> []
                     then Some (3 + length ds + 1 + length ws + length body + 4, ())
                     else None))))"

definition isBullet :: "jchar \<Rightarrow> bool" where
  "isBullet c = (c = ch CHR ''-'' \<or> c = ch CHR ''*'')"

definition unorderedM :: "unit matcher" where
  "unorderedM prev s =
     (case afterLit (js ''<p>'') s of
        None \<Rightarrow> None
      | Some [] \<Rightarrow> None
      | Some (b # r2) \<Rightarrow>
          (let ws = takeWhile isSpace r2 in
           case anyLazy (js ''</p>'') (dropWhile isSpace r2) of
             None \<Rightarrow> None
           | Some body \<Rightarrow>
               (if isBullet b \<and> ws \<noteq> []
                then Some (3 + 1 + length ws + length body + 4, ())
                else None)))"

text \<open>\<open>/<\/?p>/g\<close>, and the separator \<open>/<br\s*\/?>|\n/\<close> of \<open>split\<close>.\<close>

definition pTagM :: "unit matcher" where
  "pTagM prev s =
     (if prefix (js ''</p>'') s then Some (4, ())
      else if prefix (js ''<p>'') s then Some (3, ())
      else None)"

definition lineBreakM :: "unit matcher" where
  "lineBreakM prev s =
     (case afterLit (js ''<br'') s of
        Some r \<Rightarrow>
          (let ws = takeWhile isSpace r;
               r1 = dropWhile isSpace r;
               slash = (case r1 of [] \<Rightarrow> False | c # cs \<Rightarrow> c = ch CHR ''/'');
               r2 = (if slash then tl r1 else r1)
           in if afterLit (js ''>'') r2 \<noteq> None
              then Some (3 + length ws + (if slash then 1 else 0) + 1, ()) else None)
      | None \<Rightarrow> (case s of [] \<Rightarrow> None | c # cs \<Rightarrow> if c = 10 then Some (1, ()) else None))"

text \<open>The item prefixes \<open>/^\d+\.\s+/\<close> and \<open>/^[-*]\s+/\<close> (no \<open>m\<close> flag: the start of the
  string only): the length of the prefix when the item has one.\<close>

definition orderedPrefix :: "jstring \<Rightarrow> nat option" where
  "orderedPrefix item =
     (let ds = takeWhile isDigit item in
      case afterLit (js ''.'') (dropWhile isDigit item) of
        None \<Rightarrow> None
      | Some r \<Rightarrow>
          (let ws = takeWhile isSpace r in
           if ds \<noteq> [] \<and> ws \<noteq> [] then Some (length ds + 1 + length ws) else None))"

definition unorderedPrefix :: "jstring \<Rightarrow> nat option" where
  "unorderedPrefix item =
     (case item of
        [] \<Rightarrow> None
      | b # r \<Rightarrow>
          (let ws = takeWhile isSpace r in
           if isBullet b \<and> ws \<noteq> [] then Some (1 + length ws) else None))"

text \<open>\<open>item.replace(/^\d+\.\s+/, '')\<close>: not global, and anchored at the start.\<close>

definition dropPrefix :: "(jstring \<Rightarrow> nat option) \<Rightarrow> jstring \<Rightarrow> jstring" where
  "dropPrefix pre item = (case pre item of None \<Rightarrow> item | Some n \<Rightarrow> drop n item)"

text \<open>The lines of a matched paragraph that carry the item prefix: the paragraph tags
  removed, split at line breaks, each piece trimmed, the pieces without prefix dropped.\<close>

definition itemLines :: "(jstring \<Rightarrow> nat option) \<Rightarrow> jstring \<Rightarrow> jstring list" where
  "itemLines pre match =
     filter (\<lambda>item. pre item \<noteq> None)
       (map trim (splitAll lineBreakM (replaceAll pTagM (\<lambda>w g. []) match)))"

definition listItems :: "(jstring \<Rightarrow> nat option) \<Rightarrow> jstring \<Rightarrow> jstring" where
  "listItems pre match =
     join [10] (map (\<lambda>item. js ''<li>'' @ dropPrefix pre item @ js ''</li>'') (itemLines pre match))"

definition orderedList :: "jstring \<Rightarrow> unit \<Rightarrow> jstring" where
  "orderedList match g =
     (let items = listItems orderedPrefix match in
      if length items > 0 then js ''<ol>'' @ items @ js ''</ol>'' else match)"

definition unorderedList :: "jstring \<Rightarrow> unit \<Rightarrow> jstring" where
  "unorderedList match g =
     (let items = listItems unorderedPrefix match in
      if length items > 0 then js ''<ul>'' @ items @ js ''</ul>'' else match)"

subsection \<open>The pipeline\<close>

text \<open>The passes in the order of the source: the inline passes, from protecting the
  inline code to restoring it, and then the block passes.\<close>

definition headings :: "jstring \<Rightarrow> jstring" where
  "headings s = heading 1 (heading 2 (heading 3 (heading 4 (heading 5 (heading 6 s)))))"

definition emphasis :: "jstring \<Rightarrow> jstring" where
  "emphasis s =
     replaceAll italicM (\<lambda>w body. js ''<em>'' @ body @ js ''</em>'')
       (replaceAll boldM (\<lambda>w cap. js ''<strong>'' @ cap @ js ''</strong>'') s)"

definition blockPasses :: "jstring \<Rightarrow> jstring" where
  "blockPasses s =
     replaceAll unorderedM unorderedList
       (replaceAll orderedM orderedList
          (replaceAll ruleM (\<lambda>w g. js ''<hr>'')
             (replaceAll blockquoteM (\<lambda>w cap. js ''<blockquote><p>'' @ cap @ js ''</p></blockquote>'')
                (replaceAll fenceM fenceBlock
                   (replaceAll (wrappedFenceM (js ''~~~'')) (\<lambda>w cap. cap)
                      (replaceAll (wrappedFenceM (js ''```'')) (\<lambda>w cap. cap) s))))))"

definition inlinePasses :: "jstring \<Rightarrow> jstring" where
  "inlinePasses content =
     (case protectInlineCode content of
        (processed, codeBlocks) \<Rightarrow>
          replaceAll placeholderM (restoreCode codeBlocks) (emphasis (headings processed)))"

definition processContent :: "jstring \<Rightarrow> jstring" where
  "processContent content = blockPasses (inlinePasses content)"

section \<open>The excerpt: \<open>getExcerptText\<close>\<close>

text \<open>\<open>/&#\d+;/g\<close>.\<close>

definition numericEntityM :: "unit matcher" where
  "numericEntityM prev s =
     (case afterLit (js ''&#'') s of
        None \<Rightarrow> None
      | Some r \<Rightarrow>
          (let ds = takeWhile isDigit r in
           if ds \<noteq> [] \<and> afterLit (js '';'') (dropWhile isDigit r) \<noteq> None
           then Some (2 + length ds + 1, ()) else None))"

text \<open>\<open>/<[^>]+>/g\<close>.\<close>

definition tagM :: "unit matcher" where
  "tagM prev s =
     (case afterLit (js ''<'') s of
        None \<Rightarrow> None
      | Some r \<Rightarrow>
          (let inner = takeWhile (\<lambda>c. c \<noteq> ch CHR ''>'') r in
           if inner \<noteq> [] \<and> afterLit (js ''>'') (dropWhile (\<lambda>c. c \<noteq> ch CHR ''>'') r) \<noteq> None
           then Some (1 + length inner + 1, ()) else None))"

text \<open>\<open>/^#{1,6}\s+/gm\<close>: at the start of the string or after a line terminator, one to
  six hash marks and then white space. With more than six hash marks the seventh stands
  where white space is required, and fewer than all of them leaves a hash mark there.\<close>

definition markdownHeaderM :: "unit matcher" where
  "markdownHeaderM prev s =
     (if (case prev of None \<Rightarrow> True | Some p \<Rightarrow> isLineTerminator p) then
        (let hashes = takeWhile (\<lambda>c. c = ch CHR ''#'') s;
             ws = takeWhile isSpace (dropWhile (\<lambda>c. c = ch CHR ''#'') s)
         in if 1 \<le> length hashes \<and> length hashes \<le> 6 \<and> ws \<noteq> []
            then Some (length hashes + length ws, ()) else None)
      else None)"

text \<open>\<open>/\*(.+?)\*/g\<close>.\<close>

definition starM :: "jstring matcher" where
  "starM prev s =
     (case afterLit (js ''*'') s of
        None \<Rightarrow> None
      | Some r \<Rightarrow>
          (case dotPlusLazy (js ''*'') r of
             None \<Rightarrow> None
           | Some cap \<Rightarrow> Some (1 + length cap + 1, cap)))"

text \<open>\<open>/\[([^\]]+)\]\([^)]+\)/g\<close>.\<close>

definition linkM :: "jstring matcher" where
  "linkM prev s =
     (case afterLit (js ''['') s of
        None \<Rightarrow> None
      | Some r \<Rightarrow>
          (let label = takeWhile (\<lambda>c. c \<noteq> ch CHR '']'') r in
           case afterLit (js '']('') (dropWhile (\<lambda>c. c \<noteq> ch CHR '']'') r) of
             None \<Rightarrow> None
           | Some r2 \<Rightarrow>
               (let target = takeWhile (\<lambda>c. c \<noteq> ch CHR '')'') r2 in
                if label \<noteq> [] \<and> target \<noteq> []
                   \<and> afterLit (js '')'') (dropWhile (\<lambda>c. c \<noteq> ch CHR '')'') r2) \<noteq> None
                then Some (1 + length label + 2 + length target + 1, label) else None)))"

text \<open>The chain of replacements and the final \<open>trim\<close> that give \<open>text\<close>; code units
  8211 and 8212 are the en dash and the em dash.\<close>

definition cleanedText :: "jstring \<Rightarrow> jstring" where
  "cleanedText excerpt =
     trim
       (replaceAll linkM (\<lambda>w label. label)
       (replaceAll inlineCodeM (\<lambda>w code. code)
       (replaceAll starM (\<lambda>w cap. cap)
       (replaceAll boldM (\<lambda>w cap. cap)
       (replaceAll markdownHeaderM (\<lambda>w g. [])
       (replaceAll tagM (\<lambda>w g. [])
       (replaceAll (litM (js ''&nbsp;'')) (\<lambda>w g. js '' '')
       (replaceAll (litM (js ''&amp;'')) (\<lambda>w g. js ''&'')
       (replaceAll numericEntityM (\<lambda>w g. [])
       (replaceAll (litM (js ''&#8212;'')) (\<lambda>w g. [8212])
       (replaceAll (litM (js ''&#8211;'')) (\<lambda>w g. [8211]) excerpt)))))))))))"

text \<open>\<open>maxLength\<close> is a JavaScript number; integral values are modelled.
  \<open>substring(0, maxLength)\<close> treats a negative bound as 0.\<close>

definition getExcerptText :: "jstring \<Rightarrow> int \<Rightarrow> jstring" where
  "getExcerptText excerpt maxLength =
     (let text = cleanedText excerpt in
      if int (length text) \<le> maxLength then text
      else trim (take (nat maxLength) text) @ js ''...'')"

definition getExcerptTextDefault :: "jstring \<Rightarrow> jstring" where
  "getExcerptTextDefault excerpt = getExcerptText excerpt 160"

section \<open>The content fetch client\<close>

text \<open>
  A thrown value is an \<open>Error\<close> with its message. \<open>fetch\<close> either rejects or resolves
  with a response; \<open>response.json()\<close> yields a value of the type the caller declares, or
  rejects. The backend is a function from the request to this outcome, so an \<open>await\<close>
  is a call.
\<close>

datatype exn = Error jstring

record 'a response =
  ok :: bool
  status :: nat
  statusText :: jstring
  bodyText :: jstring
  json :: "exn + 'a"

datatype 'a outcome = Rejected exn | Resolved "'a response"

text \<open>The \<open>URL\<close> object handed to \<open>fetch\<close>: the string it was built from and its search
  parameters in order. \<open>searchParams.set\<close> overwrites the first entry of the key and
  removes the others, or appends.\<close>

record url =
  href :: jstring
  searchParams :: "(jstring \<times> jstring) list"

fun setParam :: "jstring \<Rightarrow> jstring \<Rightarrow> (jstring \<times> jstring) list \<Rightarrow> (jstring \<times> jstring) list" where
  "setParam k v [] = [(k, v)]"
| "setParam k v ((k', v') # ps) =
     (if k' = k then (k, v) # filter (\<lambda>p. fst p \<noteq> k) ps else (k', v') # setParam k v ps)"

record WPPost =
  post_id :: nat
  post_slug :: jstring
  post_title :: jstring
  post_content :: jstring
  post_excerpt :: jstring
  post_date :: jstring
  post_modified :: jstring
  post_featured_media :: nat
  post_categories :: "nat list"
  post_tags :: "nat list"
  post_author :: nat

definition fetchAPI ::
  "jstring \<Rightarrow> (url \<Rightarrow> 'a outcome) \<Rightarrow> jstring \<Rightarrow> (jstring \<times> jstring) list \<Rightarrow> exn + 'a" where
  "fetchAPI WORDPRESS_API_URL fetch endpoint params =
     (let u = \<lparr>href = WORDPRESS_API_URL @ js ''/wp-json/wp/v2/'' @ endpoint,
               searchParams = foldl (\<lambda>ps (k, v). setParam k v ps) [(js ''_embed'', js ''true'')] params\<rparr>
      in case fetch u of
           Rejected e \<Rightarrow> Inl e
         | Resolved response \<Rightarrow>
             (if \<not> ok response
              then Inl (Error (js ''WordPress API error: '' @ numToString (status response)
                               @ js '' '' @ statusText response))
              else json response))"

definition getPostBySlug :: "jstring \<Rightarrow> (url \<Rightarrow> WPPost list outcome) \<Rightarrow> jstring \<Rightarrow> exn + WPPost option" where
  "getPostBySlug WORDPRESS_API_URL fetch slug =
     (case fetchAPI WORDPRESS_API_URL fetch (js ''posts'') [(js ''slug'', slug)] of
        Inl e \<Rightarrow> Inl e
      | Inr posts \<Rightarrow> Inr (case posts of [] \<Rightarrow> None | p # ps \<Rightarrow> Some p))"

text \<open>\<open>getAllPostSlugs\<close> returns its result together with the warnings it wrote to the
  console (the message and the caught value).\<close>

definition getAllPostSlugs ::
  "jstring \<Rightarrow> (url \<Rightarrow> WPPost list outcome) \<Rightarrow> (exn + jstring list) \<times> (jstring \<times> exn) list" where
  "getAllPostSlugs WORDPRESS_API_URL fetch =
     (case fetchAPI WORDPRESS_API_URL fetch (js ''posts'')
             [(js ''per_page'', js ''100''), (js ''_fields'', js ''slug'')] of
        Inr posts \<Rightarrow> (Inr (map post_slug posts), [])
      | Inl error \<Rightarrow> (Inr [], [(js ''Could not fetch post slugs from WordPress:'', error)]))"

section \<open>The publishing client\<close>

text \<open>
  The environment variables are a record; \<open>Buffer\<close>'s base64 encoding,
  \<open>JSON.stringify\<close> and \<open>String.prototype.toLowerCase\<close> are library functions and are
  taken as parameters. Every function returns its result together with the requests it
  issued, in order.
\<close>

record config =
  WORDPRESS_API_URL :: jstring
  WORDPRESS_USER :: jstring
  WORDPRESS_APP_PASSWORD :: jstring

datatype jsonv = JStr jstring | JNum nat | JArr "jsonv list" | JObj "(jstring \<times> jsonv) list"

record library =
  base64 :: "jstring \<Rightarrow> jstring"
  stringify :: "jsonv \<Rightarrow> jstring"
  toLowerCase :: "jstring \<Rightarrow> jstring"

record request =
  req_url :: jstring
  req_method :: "jstring option"
  req_body :: "jstring option"
  req_headers :: "(jstring \<times> jstring) list"

record requestInit =
  init_method :: "jstring option"
  init_body :: "jstring option"
  init_headers :: "(jstring \<times> jstring) list"

definition getAuthHeader :: "config \<Rightarrow> library \<Rightarrow> jstring" where
  "getAuthHeader cfg lib =
     js ''Basic ''
     @ base64 lib (WORDPRESS_USER cfg @ js '':''
                   @ filter (\<lambda>c. \<not> isSpace c) (WORDPRESS_APP_PASSWORD cfg))"

definition wpFetch ::
  "config \<Rightarrow> library \<Rightarrow> (request \<Rightarrow> 'a outcome) \<Rightarrow> jstring \<Rightarrow> requestInit
     \<Rightarrow> (exn + 'a) \<times> request list" where
  "wpFetch cfg lib fetch endpoint options =
     (let r = \<lparr>req_url = WORDPRESS_API_URL cfg @ js ''/wp-json/wp/v2/'' @ endpoint,
               req_method = init_method options,
               req_body = init_body options,
               req_headers =
                 foldl (\<lambda>hs (k, v). setParam k v hs)
                   [(js ''Content-Type'', js ''application/json''),
                    (js ''Authorization'', getAuthHeader cfg lib)]
                   (init_headers options)\<rparr>
      in case fetch r of
           Rejected e \<Rightarrow> (Inl e, [r])
         | Resolved response \<Rightarrow>
             (if \<not> ok response
              then (Inl (Error (js ''WordPress API error: '' @ numToString (status response)
                                @ js '' - '' @ bodyText response)), [r])
              else (json response, [r])))"

datatype postStatus = Publish | Draft | Pending

fun statusString :: "postStatus \<Rightarrow> jstring" where
  "statusString Publish = js ''publish''"
| "statusString Draft = js ''draft''"
| "statusString Pending = js ''pending''"

text \<open>\<open>UpdatePostOptions\<close>: the identifier and the optional fields of
  \<open>CreatePostOptions\<close>; an absent field is \<open>None\<close>.\<close>

record UpdatePostOptions =
  upd_id :: nat
  upd_title :: "jstring option"
  upd_content :: "jstring option"
  upd_excerpt :: "jstring option"
  upd_status :: "postStatus option"
  upd_categories :: "nat list option"
  upd_tags :: "nat list option"
  upd_featured_media :: "nat option"

record WPPostResponse =
  resp_id :: nat
  resp_slug :: jstring
  resp_link :: jstring
  resp_status :: jstring
  resp_title :: jstring

text \<open>The object \<open>data\<close> left after taking \<open>id\<close> out of the options: the fields that
  are present (here in the order of the interface).\<close>

definition field :: "jstring \<Rightarrow> ('a \<Rightarrow> jsonv) \<Rightarrow> 'a option \<Rightarrow> (jstring \<times> jsonv) list" where
  "field k enc v = (case v of None \<Rightarrow> [] | Some x \<Rightarrow> [(k, enc x)])"

definition updateData :: "UpdatePostOptions \<Rightarrow> jsonv" where
  "updateData options =
     JObj (field (js ''title'') JStr (upd_title options)
           @ field (js ''content'') JStr (upd_content options)
           @ field (js ''excerpt'') JStr (upd_excerpt options)
           @ field (js ''status'') (\<lambda>s. JStr (statusString s)) (upd_status options)
           @ field (js ''categories'') (\<lambda>xs. JArr (map JNum xs)) (upd_categories options)
           @ field (js ''tags'') (\<lambda>xs. JArr (map JNum xs)) (upd_tags options)
           @ field (js ''featured_media'') JNum (upd_featured_media options))"

definition updatePost ::
  "config \<Rightarrow> library \<Rightarrow> (request \<Rightarrow> WPPostResponse outcome) \<Rightarrow> UpdatePostOptions
     \<Rightarrow> (exn + WPPostResponse) \<times> request list" where
  "updatePost cfg lib fetch options =
     wpFetch cfg lib fetch (js ''posts/'' @ numToString (upd_id options))
       \<lparr>init_method = Some (js ''POST''),
        init_body = Some (stringify lib (updateData options)),
        init_headers = []\<rparr>"

definition publishPost ::
  "config \<Rightarrow> library \<Rightarrow> (request \<Rightarrow> WPPostResponse outcome) \<Rightarrow> nat
     \<Rightarrow> (exn + WPPostResponse) \<times> request list" where
  "publishPost cfg lib fetch id' =
     updatePost cfg lib fetch
       \<lparr>upd_id = id', upd_title = None, upd_content = None, upd_excerpt = None,
        upd_status = Some Publish, upd_categories = None, upd_tags = None,
        upd_featured_media = None\<rparr>"

record category =
  cat_id :: nat
  cat_name :: jstring
  cat_slug :: jstring

definition getCategories ::
  "config \<Rightarrow> library \<Rightarrow> (request \<Rightarrow> category list outcome) \<Rightarrow> (exn + category list) \<times> request list" where
  "getCategories cfg lib fetch =
     wpFetch cfg lib fetch (js ''categories?per_page=100'')
       \<lparr>init_method = None, init_body = None, init_headers = []\<rparr>"

definition createCategory ::
  "config \<Rightarrow> library \<Rightarrow> (request \<Rightarrow> category outcome) \<Rightarrow> jstring \<Rightarrow> (exn + category) \<times> request list" where
  "createCategory cfg lib fetch name =
     wpFetch cfg lib fetch (js ''categories'')
       \<lparr>init_method = Some (js ''POST''),
        init_body = Some (stringify lib (JObj [(js ''name'', JStr name)])),
        init_headers = []\<rparr>"

text \<open>\<open>getOrCreateCategory\<close>: the list request and the creation request have different
  result types, so the backend appears once for each.\<close>

definition getOrCreateCategory ::
  "config \<Rightarrow> library \<Rightarrow> (request \<Rightarrow> category list outcome) \<Rightarrow> (request \<Rightarrow> category outcome)
     \<Rightarrow> jstring \<Rightarrow> (exn + nat) \<times> request list" where
  "getOrCreateCategory cfg lib fetchList fetchOne name =
     (case getCategories cfg lib fetchList of
        (Inl e, reqs) \<Rightarrow> (Inl e, reqs)
      | (Inr categories, reqs) \<Rightarrow>
          (case find (\<lambda>cat. toLowerCase lib (cat_name cat) = toLowerCase lib name) categories of
             Some existing \<Rightarrow> (Inr (cat_id existing), reqs)
           | None \<Rightarrow>
               (case createCategory cfg lib fetchOne name of
                  (Inl e, reqs') \<Rightarrow> (Inl e, reqs @ reqs')
                | (Inr newCategory, reqs') \<Rightarrow> (Inr (cat_id newCategory), reqs @ reqs'))))"

section \<open>Sample values\<close>

definition samplePost :: WPPost where
  "samplePost = \<lparr>post_id = 7, post_slug = js ''hello'', post_title = js ''Hello'',
     post_content = [], post_excerpt = [], post_date = [], post_modified = [],
     post_featured_media = 0, post_categories = [], post_tags = [], post_author = 1\<rparr>"

definition okResponse :: "'a \<Rightarrow> 'a response" where
  "okResponse v = \<lparr>ok = True, status = 200, statusText = js ''OK'', bodyText = [], json = Inr v\<rparr>"

definition sampleConfig :: config where
  "sampleConfig = \<lparr>WORDPRESS_API_URL = js ''http://localhost:8080'', WORDPRESS_USER = js ''admin'',
     WORDPRESS_APP_PASSWORD = js ''abcd efgh''\<rparr>"

text \<open>A stand-in for the library: the identity for base64 and \<open>stringify\<close> replaced by a
  constant, and lower-casing of the ASCII letters.\<close>

definition sampleLibrary :: library where
  "sampleLibrary = \<lparr>base64 = (\<lambda>s. s), stringify = (\<lambda>v. js ''{}''),
     toLowerCase = map (\<lambda>c. if 65 \<le> c \<and> c \<le> 90 then c + 32 else c)\<rparr>"

definition sampleCategories :: "category list" where
  "sampleCategories =
     [\<lparr>cat_id = 2, cat_name = js ''Lessons Learned'', cat_slug = js ''lessons-learned''\<rparr>,
      \<lparr>cat_id = 4, cat_name = js ''Vibe Coding'', cat_slug = js ''vibe-coding''\<rparr>]"

text \<open>The request that \<open>wpFetch\<close> hands to \<open>fetch\<close> when the options carry no headers
  of their own.\<close>

definition wpRequest :: "config \<Rightarrow> library \<Rightarrow> jstring \<Rightarrow> jstring option \<Rightarrow> jstring option \<Rightarrow> request" where
  "wpRequest cfg lib endpoint m b =
     \<lparr>req_url = WORDPRESS_API_URL cfg @ js ''/wp-json/wp/v2/'' @ endpoint,
      req_method = m, req_body = b,
      req_headers = [(js ''Content-Type'', js ''application/json''),
                     (js ''Authorization'', getAuthHeader cfg lib)]\<rparr>"

definition sampleResponse :: WPPostResponse where
  "sampleResponse = \<lparr>resp_id = 42, resp_slug = js ''hello'', resp_link = js ''/blog/hello/'',
     resp_status = js ''publish'', resp_title = js ''Hello''\<rparr>"

section \<open>Vocabulary of the properties\<close>

text \<open>\<open>anywhere Q s\<close>: some suffix of \<open>s\<close> satisfies \<open>Q\<close>, that is, \<open>Q\<close> holds at some
  position of \<open>s\<close>; \<open>occurs pat s\<close>: the string \<open>pat\<close> occurs in \<open>s\<close>.\<close>

fun anywhere :: "(jstring \<Rightarrow> bool) \<Rightarrow> jstring \<Rightarrow> bool" where
  "anywhere Q [] = Q []"
| "anywhere Q (c # cs) = (Q (c # cs) \<or> anywhere Q cs)"

fun occurs :: "jstring \<Rightarrow> jstring \<Rightarrow> bool" where
  "occurs pat [] = (pat = [])"
| "occurs pat (c # cs) = (prefix pat (c # cs) \<or> occurs pat cs)"

text \<open>The block-level rewrites (headings, block quotes, rules, lists, wrapped fences)
  all start at a \<open><p>\<close> that is directly followed by a block marker: a hash mark, an
  ampersand, a hyphen, an asterisk, an underscore, a backtick, a tilde or a digit.\<close>

definition blockMarker :: "jchar \<Rightarrow> bool" where
  "blockMarker c = (c = ch CHR ''#'' \<or> c = ch CHR ''&'' \<or> c = ch CHR ''-'' \<or> c = ch CHR ''*''
     \<or> c = ch CHR ''_'' \<or> c = ch CHR ''`'' \<or> c = ch CHR ''~'' \<or> isDigit c)"

definition blockStart :: "jstring \<Rightarrow> bool" where
  "blockStart s =
     (case afterLit (js ''<p>'') s of
        None \<Rightarrow> False
      | Some [] \<Rightarrow> False
      | Some (c # r) \<Rightarrow> blockMarker c)"

text \<open>Quiet text: text on which no rewrite of the normaliser applies. It has no asterisk
  and no backtick, nothing that looks like the start of a code placeholder, and no
  paragraph that starts with a block marker. Tags, underscores and hash marks are
  allowed. Plain text is quiet text without any tag.\<close>

definition quiet :: "jstring \<Rightarrow> bool" where
  "quiet t = (ch CHR ''*'' \<notin> set t \<and> ch CHR ''`'' \<notin> set t
              \<and> \<not> occurs (js ''__CODE_BLOCK_'') t \<and> \<not> anywhere blockStart t)"

definition plain :: "jstring \<Rightarrow> bool" where
  "plain t = (ch CHR ''<'' \<notin> set t \<and> ch CHR ''*'' \<notin> set t \<and> ch CHR ''`'' \<notin> set t
              \<and> \<not> occurs (js ''__CODE_BLOCK_'') t)"

definition oneLine :: "jstring \<Rightarrow> bool" where
  "oneLine t = list_all (\<lambda>c. \<not> isLineTerminator c) t"

text \<open>The text of an inline code span: not empty and without backtick, as the expression
  of the first pass requires, and without a paragraph that starts with a block marker.
  Asterisks, underscores, hash marks, tags and placeholder look-alikes are allowed.\<close>

definition spanText :: "jstring \<Rightarrow> bool" where
  "spanText c = (c \<noteq> [] \<and> ch CHR ''`'' \<notin> set c \<and> \<not> anywhere blockStart c)"

text \<open>A document made of text and code spans: each span is preceded by a text, and a
  last text follows. \<open>render wrap\<close> writes it with every span wrapped by \<open>wrap\<close>.\<close>

fun render :: "('a \<Rightarrow> jstring) \<Rightarrow> (jstring \<times> 'a) list \<Rightarrow> jstring \<Rightarrow> jstring" where
  "render wrap [] end = end"
| "render wrap ((t, c) # segs) end = t @ wrap c @ render wrap segs end"


definition codeElement :: "jstring \<Rightarrow> jstring" where
  "codeElement c = js ''<code>'' @ c @ js ''</code>''"

text \<open>The placeholder of the code span with index \<open>k\<close>, and the document after the first
  pass: the spans replaced by the placeholders numbered from \<open>k\<close>.\<close>

definition placeholder :: "nat \<Rightarrow> jstring" where
  "placeholder k = js ''__CODE_BLOCK_'' @ numToString k @ js ''__''"

fun renderIdx :: "nat \<Rightarrow> (jstring \<times> jstring) list \<Rightarrow> jstring \<Rightarrow> jstring" where
  "renderIdx k [] end = end"
| "renderIdx k ((t, c) # segs) end = t @ placeholder k @ renderIdx (Suc k) segs end"

text \<open>The heading and emphasis passes edit a text in one way only: they replace a
  delimiter (a run made of the characters of \<open><p>\<close> and \<open></p>\<close>, hash marks, asterisks
  and white space) by a tag, and keep everything else. \<open>edit s t\<close>: the text \<open>t\<close> comes
  from \<open>s\<close> by such replacements.\<close>

definition delimChar :: "jchar \<Rightarrow> bool" where
  "delimChar c = (c = ch CHR ''<'' \<or> c = ch CHR ''p'' \<or> c = ch CHR ''>'' \<or> c = ch CHR ''#''
     \<or> c = ch CHR ''/'' \<or> c = ch CHR ''*'' \<or> isSpace c)"

definition tagString :: "jstring \<Rightarrow> bool" where
  "tagString g = (g \<noteq> [] \<and> hd g = ch CHR ''<'' \<and> ch CHR ''_'' \<notin> set g)"

inductive edit :: "jstring \<Rightarrow> jstring \<Rightarrow> bool" where
  edit_Nil: "edit [] []"
| edit_keep: "edit s t \<Longrightarrow> edit (c # s) (c # t)"
| edit_swap: "edit s t \<Longrightarrow> d \<noteq> [] \<Longrightarrow> list_all delimChar d \<Longrightarrow> tagString g
               \<Longrightarrow> edit (d @ s) (g @ t)"














section \<open>Properties of the fetch client\<close>

lemma fetchAPI_posts_by_slug:
  "fetchAPI api fetch (js ''posts'') [(js ''slug'', slug)] =
     (case fetch \<lparr>href = api @ js ''/wp-json/wp/v2/posts'',
                  searchParams = [(js ''_embed'', js ''true''), (js ''slug'', slug)]\<rparr> of
        Rejected e \<Rightarrow> Inl e
      | Resolved response \<Rightarrow>
          (if \<not> ok response
           then Inl (Error (js ''WordPress API error: '' @ numToString (status response)
                            @ js '' '' @ statusText response))
           else json response))"
  by (simp add: fetchAPI_def js_def ch_def)

text \<open>Claim C8. When the backend answers the slug query with an empty list, \<open>getPostBySlug\<close>
  returns \<open>null\<close> (here \<open>Inr None\<close>: a normal return, nothing thrown); when the list is
  not empty it returns the first element.\<close>

theorem getPostBySlug_first_or_null:
  assumes "fetch \<lparr>href = api @ js ''/wp-json/wp/v2/posts'',
                   searchParams = [(js ''_embed'', js ''true''), (js ''slug'', slug)]\<rparr> = Resolved r"
    and "ok r" and "json r = Inr posts"
  shows "(posts = [] \<longrightarrow> getPostBySlug api fetch slug = Inr None)
       \<and> (\<forall>p ps. posts = p # ps \<longrightarrow> getPostBySlug api fetch slug = Inr (Some p))"
  using assms by (simp add: getPostBySlug_def fetchAPI_posts_by_slug)

theorem getPostBySlug_first_or_null_witness:
  "getPostBySlug (js ''https://blog.example'') (\<lambda>u. Resolved (okResponse [])) (js ''hello'') = Inr None
   \<and> getPostBySlug (js ''https://blog.example'') (\<lambda>u. Resolved (okResponse [samplePost, samplePost\<lparr>post_id := 8\<rparr>]))
        (js ''hello'') = Inr (Some samplePost)"
  using getPostBySlug_first_or_null [of "\<lambda>u. Resolved (okResponse [])" "js ''https://blog.example''"
          "js ''hello''" "okResponse []" "[]"]
        getPostBySlug_first_or_null [of "\<lambda>u. Resolved (okResponse [samplePost, samplePost\<lparr>post_id := 8\<rparr>])"
          "js ''https://blog.example''" "js ''hello''"
          "okResponse [samplePost, samplePost\<lparr>post_id := 8\<rparr>]" "[samplePost, samplePost\<lparr>post_id := 8\<rparr>]"]
  by (simp add: okResponse_def)

lemma fetchAPI_all_slugs:
  "fetchAPI api fetch (js ''posts'') [(js ''per_page'', js ''100''), (js ''_fields'', js ''slug'')] =
     (case fetch \<lparr>href = api @ js ''/wp-json/wp/v2/posts'',
                  searchParams = [(js ''_embed'', js ''true''), (js ''per_page'', js ''100''),
                                  (js ''_fields'', js ''slug'')]\<rparr> of
        Rejected e \<Rightarrow> Inl e
      | Resolved response \<Rightarrow>
          (if \<not> ok response
           then Inl (Error (js ''WordPress API error: '' @ numToString (status response)
                            @ js '' '' @ statusText response))
           else json response))"
  by (simp add: fetchAPI_def js_def ch_def)

text \<open>Claim C4. \<open>getAllPostSlugs\<close> never raises: whatever the backend does, it returns a
  list of slugs. When \<open>fetch\<close> rejects or the response is not a success, the list is
  empty and exactly one warning was written to the console.\<close>

theorem getAllPostSlugs_never_raises:
  "(\<exists>slugs warnings. getAllPostSlugs api fetch = (Inr slugs, warnings))
   \<and> ((\<exists>e. fetch \<lparr>href = api @ js ''/wp-json/wp/v2/posts'',
                    searchParams = [(js ''_embed'', js ''true''), (js ''per_page'', js ''100''),
                                    (js ''_fields'', js ''slug'')]\<rparr> = Rejected e)
        \<or> (\<exists>r. fetch \<lparr>href = api @ js ''/wp-json/wp/v2/posts'',
                    searchParams = [(js ''_embed'', js ''true''), (js ''per_page'', js ''100''),
                                    (js ''_fields'', js ''slug'')]\<rparr> = Resolved r \<and> \<not> ok r)
      \<longrightarrow> (\<exists>error. getAllPostSlugs api fetch
                     = (Inr [], [(js ''Could not fetch post slugs from WordPress:'', error)])))"
  by (auto simp add: getAllPostSlugs_def fetchAPI_all_slugs split: outcome.splits sum.splits)

theorem getAllPostSlugs_never_raises_witness:
  "getAllPostSlugs (js ''https://blog.example'') (\<lambda>u. Rejected (Error (js ''fetch failed'')))
     = (Inr [], [(js ''Could not fetch post slugs from WordPress:'', Error (js ''fetch failed''))])
   \<and> getAllPostSlugs (js ''https://blog.example'')
        (\<lambda>u. Resolved \<lparr>ok = False, status = 503, statusText = js ''Service Unavailable'',
                         bodyText = [], json = Inr [samplePost]\<rparr>)
     = (Inr [], [(js ''Could not fetch post slugs from WordPress:'',
                  Error (js ''WordPress API error: 503 Service Unavailable''))])"
  using getAllPostSlugs_never_raises [of "js ''https://blog.example''" "\<lambda>u. Rejected (Error (js ''fetch failed''))"]
        getAllPostSlugs_never_raises [of "js ''https://blog.example''"
          "\<lambda>u. Resolved \<lparr>ok = False, status = 503, statusText = js ''Service Unavailable'',
                         bodyText = [], json = Inr [samplePost]\<rparr>"]
  unfolding getAllPostSlugs_def fetchAPI_all_slugs by (simp add: js_def ch_def numToString.simps)

section \<open>Properties of the publishing client\<close>

lemma wpFetch_plain:
  "wpFetch cfg lib fetch endpoint \<lparr>init_method = m, init_body = b, init_headers = []\<rparr> =
     (case fetch (wpRequest cfg lib endpoint m b) of
        Rejected e \<Rightarrow> (Inl e, [wpRequest cfg lib endpoint m b])
      | Resolved response \<Rightarrow>
          (if \<not> ok response
           then (Inl (Error (js ''WordPress API error: '' @ numToString (status response)
                             @ js '' - '' @ bodyText response)), [wpRequest cfg lib endpoint m b])
           else (json response, [wpRequest cfg lib endpoint m b])))"
  by (simp add: wpFetch_def wpRequest_def Let_def split: outcome.splits)

text \<open>Claim C10. \<open>publishPost(id)\<close> is \<open>updatePost({ id, status: 'publish' })\<close>: the same
  result and the same requests, namely the single request to \<open>posts/:id\<close> with method
  \<open>POST\<close> and a body that holds only the status \<open>publish\<close>.\<close>

theorem publishPost_is_updatePost:
  "publishPost cfg lib fetch i =
     updatePost cfg lib fetch
       \<lparr>upd_id = i, upd_title = None, upd_content = None, upd_excerpt = None,
        upd_status = Some Publish, upd_categories = None, upd_tags = None,
        upd_featured_media = None\<rparr>
   \<and> snd (publishPost cfg lib fetch i) =
       [\<lparr>req_url = WORDPRESS_API_URL cfg @ js ''/wp-json/wp/v2/posts/'' @ numToString i,
         req_method = Some (js ''POST''),
         req_body = Some (stringify lib (JObj [(js ''status'', JStr (js ''publish''))])),
         req_headers = [(js ''Content-Type'', js ''application/json''),
                        (js ''Authorization'', getAuthHeader cfg lib)]\<rparr>]"
  by (simp add: publishPost_def updatePost_def wpFetch_plain updateData_def field_def wpRequest_def
        js_def split: outcome.splits)

theorem publishPost_is_updatePost_witness:
  "publishPost sampleConfig sampleLibrary (\<lambda>q. Resolved (okResponse sampleResponse)) 42 =
     (Inr sampleResponse,
      [\<lparr>req_url = js ''http://localhost:8080/wp-json/wp/v2/posts/42'',
        req_method = Some (js ''POST''),
        req_body = Some (stringify sampleLibrary (JObj [(js ''status'', JStr (js ''publish''))])),
        req_headers = [(js ''Content-Type'', js ''application/json''),
                       (js ''Authorization'', js ''Basic admin:abcdefgh'')]\<rparr>])"
  using publishPost_is_updatePost [of sampleConfig sampleLibrary "\<lambda>q. Resolved (okResponse sampleResponse)" 42]
  by (simp add: updatePost_def wpFetch_plain updateData_def field_def wpRequest_def okResponse_def
        sampleConfig_def sampleLibrary_def getAuthHeader_def isSpace_def numToString.simps js_def ch_def)

text \<open>Claim C5. Given the category list that \<open>getCategories\<close> returned: if an entry's name
  equals the requested name after lower-casing both, \<open>getOrCreateCategory\<close> returns the
  identifier of such an entry and the only request issued is the one for the list (no
  creation call); if there is none, it issues the creation request after the list request
  and returns the identifier of the created category.\<close>

theorem getOrCreateCategory_existing_or_created:
  assumes "fetchList (wpRequest cfg lib (js ''categories?per_page=100'') None None) = Resolved r"
    and "ok r" and "json r = Inr categories"
  shows "((\<exists>cat \<in> set categories. toLowerCase lib (cat_name cat) = toLowerCase lib name) \<longrightarrow>
            (\<exists>existing \<in> set categories.
               toLowerCase lib (cat_name existing) = toLowerCase lib name
               \<and> getOrCreateCategory cfg lib fetchList fetchOne name
                   = (Inr (cat_id existing),
                      [wpRequest cfg lib (js ''categories?per_page=100'') None None])))
       \<and> (\<not> (\<exists>cat \<in> set categories. toLowerCase lib (cat_name cat) = toLowerCase lib name) \<longrightarrow>
            (\<forall>r' newCategory.
               fetchOne (wpRequest cfg lib (js ''categories'') (Some (js ''POST''))
                           (Some (stringify lib (JObj [(js ''name'', JStr name)])))) = Resolved r'
               \<and> ok r' \<and> json r' = Inr newCategory \<longrightarrow>
               getOrCreateCategory cfg lib fetchList fetchOne name
                 = (Inr (cat_id newCategory),
                    [wpRequest cfg lib (js ''categories?per_page=100'') None None,
                     wpRequest cfg lib (js ''categories'') (Some (js ''POST''))
                       (Some (stringify lib (JObj [(js ''name'', JStr name)])))])))"
proof (intro conjI impI)
  have cats: "getCategories cfg lib fetchList
      = (Inr categories, [wpRequest cfg lib (js ''categories?per_page=100'') None None])"
    using assms by (simp add: getCategories_def wpFetch_plain)
  {
    assume "\<exists>cat \<in> set categories. toLowerCase lib (cat_name cat) = toLowerCase lib name"
    then obtain existing where
      f: "find (\<lambda>cat. toLowerCase lib (cat_name cat) = toLowerCase lib name) categories = Some existing"
      by (cases "find (\<lambda>cat. toLowerCase lib (cat_name cat) = toLowerCase lib name) categories")
         (auto simp: find_None_iff)
    then have "existing \<in> set categories"
      and "toLowerCase lib (cat_name existing) = toLowerCase lib name"
      by (auto simp: find_Some_iff)
    then show "\<exists>existing \<in> set categories.
               toLowerCase lib (cat_name existing) = toLowerCase lib name
               \<and> getOrCreateCategory cfg lib fetchList fetchOne name
                   = (Inr (cat_id existing),
                      [wpRequest cfg lib (js ''categories?per_page=100'') None None])"
      using f cats by (auto simp: getOrCreateCategory_def)
  }
  {
    assume "\<not> (\<exists>cat \<in> set categories. toLowerCase lib (cat_name cat) = toLowerCase lib name)"
    then have f: "find (\<lambda>cat. toLowerCase lib (cat_name cat) = toLowerCase lib name) categories = None"
      by (auto simp: find_None_iff)
    show "\<forall>r' newCategory.
               fetchOne (wpRequest cfg lib (js ''categories'') (Some (js ''POST''))
                           (Some (stringify lib (JObj [(js ''name'', JStr name)])))) = Resolved r'
               \<and> ok r' \<and> json r' = Inr newCategory \<longrightarrow>
               getOrCreateCategory cfg lib fetchList fetchOne name
                 = (Inr (cat_id newCategory),
                    [wpRequest cfg lib (js ''categories?per_page=100'') None None,
                     wpRequest cfg lib (js ''categories'') (Some (js ''POST''))
                       (Some (stringify lib (JObj [(js ''name'', JStr name)])))])"
      using f cats by (auto simp: getOrCreateCategory_def createCategory_def wpFetch_plain)
  }
qed

theorem getOrCreateCategory_existing_or_created_witness:
  "getOrCreateCategory sampleConfig sampleLibrary (\<lambda>q. Resolved (okResponse sampleCategories))
      (\<lambda>q. Rejected (Error (js ''must not be called''))) (js ''vibe coding'')
     = (Inr 4, [wpRequest sampleConfig sampleLibrary (js ''categories?per_page=100'') None None])
   \<and> getOrCreateCategory sampleConfig sampleLibrary (\<lambda>q. Resolved (okResponse sampleCategories))
      (\<lambda>q. Resolved (okResponse \<lparr>cat_id = 9, cat_name = js ''News'', cat_slug = js ''news''\<rparr>)) (js ''News'')
     = (Inr 9, [wpRequest sampleConfig sampleLibrary (js ''categories?per_page=100'') None None,
                wpRequest sampleConfig sampleLibrary (js ''categories'') (Some (js ''POST''))
                  (Some (stringify sampleLibrary (JObj [(js ''name'', JStr (js ''News''))])))])"
proof -
  have ok1: "ok (okResponse sampleCategories)" and j1: "json (okResponse sampleCategories) = Inr sampleCategories"
    by (simp_all add: okResponse_def)
  note t1 = getOrCreateCategory_existing_or_created
     [of "\<lambda>q. Resolved (okResponse sampleCategories)" sampleConfig sampleLibrary
         "okResponse sampleCategories" sampleCategories
         "js ''vibe coding''" "\<lambda>q. Rejected (Error (js ''must not be called''))", OF refl ok1 j1]
  note t2 = getOrCreateCategory_existing_or_created
     [of "\<lambda>q. Resolved (okResponse sampleCategories)" sampleConfig sampleLibrary
         "okResponse sampleCategories" sampleCategories
         "js ''News''" "\<lambda>q. Resolved (okResponse \<lparr>cat_id = 9, cat_name = js ''News'', cat_slug = js ''news''\<rparr>)",
      OF refl ok1 j1]
  have a: "\<exists>cat \<in> set sampleCategories.
             toLowerCase sampleLibrary (cat_name cat) = toLowerCase sampleLibrary (js ''vibe coding'')"
    by (simp add: sampleCategories_def sampleLibrary_def js_def ch_def)
  have b: "\<not> (\<exists>cat \<in> set sampleCategories.
             toLowerCase sampleLibrary (cat_name cat) = toLowerCase sampleLibrary (js ''News''))"
    by (simp add: sampleCategories_def sampleLibrary_def js_def ch_def)
  from t1 a obtain existing where e: "existing \<in> set sampleCategories"
     "toLowerCase sampleLibrary (cat_name existing) = toLowerCase sampleLibrary (js ''vibe coding'')"
     "getOrCreateCategory sampleConfig sampleLibrary (\<lambda>q. Resolved (okResponse sampleCategories))
        (\<lambda>q. Rejected (Error (js ''must not be called''))) (js ''vibe coding'')
       = (Inr (cat_id existing), [wpRequest sampleConfig sampleLibrary (js ''categories?per_page=100'') None None])"
    by blast
  from e(1,2) have "cat_id existing = 4"
    by (auto simp add: sampleCategories_def sampleLibrary_def js_def ch_def)
  with e(3) have first: "getOrCreateCategory sampleConfig sampleLibrary (\<lambda>q. Resolved (okResponse sampleCategories))
        (\<lambda>q. Rejected (Error (js ''must not be called''))) (js ''vibe coding'')
       = (Inr 4, [wpRequest sampleConfig sampleLibrary (js ''categories?per_page=100'') None None])"
    by simp
  from t2 b have second: "getOrCreateCategory sampleConfig sampleLibrary (\<lambda>q. Resolved (okResponse sampleCategories))
      (\<lambda>q. Resolved (okResponse \<lparr>cat_id = 9, cat_name = js ''News'', cat_slug = js ''news''\<rparr>)) (js ''News'')
     = (Inr 9, [wpRequest sampleConfig sampleLibrary (js ''categories?per_page=100'') None None,
                wpRequest sampleConfig sampleLibrary (js ''categories'') (Some (js ''POST''))
                  (Some (stringify sampleLibrary (JObj [(js ''name'', JStr (js ''News''))])))])"
    by (simp add: okResponse_def)
  from first second show ?thesis by simp
qed

section \<open>Properties of the list rewrite\<close>

text \<open>The definitions that evaluate the string functions on a concrete input.\<close>

lemmas eval_defs =
  replaceAll_def splitAll_def inlineCodeM_def placeholderM_def restoreCode_def headingM_def
  boldM_def italicM_def blockquoteM_def ruleM_def isRuleChar_def wrappedFenceM_def fenceM_def
  escapeHtml_def fenceBlock_def orderedM_def unorderedM_def isBullet_def pTagM_def lineBreakM_def
  orderedPrefix_def unorderedPrefix_def dropPrefix_def itemLines_def listItems_def
  orderedList_def unorderedList_def litM_def trim_def parseInt_def numericEntityM_def tagM_def
  markdownHeaderM_def starM_def linkM_def numToString.simps
  js_def ch_def isSpace_def isLineTerminator_def isDigit_def isWord_def Let_def

lemma replicate_numeral: "replicate (numeral k) x = x # replicate (pred_numeral k) x"
  by (simp add: numeral_eq_Suc)









section \<open>Properties of the excerpt\<close>

lemma dropWhile_id_hd: "s = [] \<or> \<not> P (hd s) \<Longrightarrow> dropWhile P s = s"
  by (cases s) auto

lemma trim_id:
  assumes "s = [] \<or> (\<not> isSpace (hd s) \<and> \<not> isSpace (last s))"
  shows "trim s = s"
proof (cases "s = []")
  case True
  then show ?thesis by (simp add: trim_def)
next
  case False
  with assms have h: "\<not> isSpace (hd s)" and l: "\<not> isSpace (last s)" by auto
  have a: "dropWhile isSpace s = s" using h by (simp add: dropWhile_id_hd)
  have "hd (rev s) = last s" using False by (simp add: hd_rev)
  then have b: "dropWhile isSpace (rev s) = rev s" using l by (simp add: dropWhile_id_hd)
  show ?thesis by (simp add: trim_def a b)
qed

lemma length_trim_le: "length (trim s) \<le> length s"
proof -
  have "length (dropWhile isSpace (rev (dropWhile isSpace s))) \<le> length (rev (dropWhile isSpace s))"
    by (rule length_dropWhile_le)
  then have "length (trim s) \<le> length (dropWhile isSpace s)"
    by (simp add: trim_def)
  also have "\<dots> \<le> length s" by (rule length_dropWhile_le)
  finally show ?thesis .
qed

lemma hd_trim: "trim s \<noteq> [] \<Longrightarrow> \<not> isSpace (hd (trim s))"
proof -
  assume ne: "trim s \<noteq> []"
  let ?d = "dropWhile isSpace s"
  have t: "trim s = rev (dropWhile isSpace (rev ?d))" by (simp add: trim_def)
  have dne: "?d \<noteq> []"
  proof
    assume e: "?d = []"
    have "rev (dropWhile isSpace (rev ?d)) = []" unfolding e by simp
    with ne t show False by simp
  qed
  then have hd_d: "\<not> isSpace (hd ?d)" by (rule hd_dropWhile)
  obtain x xs where d: "?d = x # xs" using dne by (cases ?d) auto
  have "rev (dropWhile isSpace (rev (x # xs))) \<noteq> []" using ne t d by simp
  then have "dropWhile isSpace (rev (x # xs)) \<noteq> []" by simp
  moreover have "\<not> isSpace x" using hd_d d by simp
  ultimately have "hd (rev (dropWhile isSpace (rev (x # xs)))) = x"
  proof (induction xs rule: rev_induct)
    case Nil
    then show ?case by simp
  next
    case (snoc y ys)
    show ?case
    proof (cases "isSpace y")
      case True
      then have "dropWhile isSpace (rev (x # ys @ [y])) = dropWhile isSpace (rev (x # ys))" by simp
      moreover have "dropWhile isSpace (rev (x # ys)) \<noteq> []"
        using snoc.prems(2) by (simp add: dropWhile_append)
      ultimately show ?thesis using snoc.IH snoc.prems(2) by simp
    next
      case False
      then show ?thesis by simp
    qed
  qed
  then show ?thesis using t d hd_d by simp
qed

lemma cleanedText_starts_clean: "cleanedText e \<noteq> [] \<Longrightarrow> \<not> isSpace (hd (cleanedText e))"
  unfolding cleanedText_def by (rule hd_trim)

text \<open>Claim C3, as the code has it. For a non-negative integral \<open>maxLength\<close>: when the
  cleaned text has at most \<open>maxLength\<close> code units, \<open>getExcerptText\<close> returns it unchanged,
  without ellipsis. When it is longer, the result is the first \<open>maxLength\<close> code units of
  the cleaned text, trimmed, followed by the three-character ellipsis; its length is at
  most \<open>maxLength + 3\<close>, and exactly that when \<open>maxLength\<close> is 0 or the last code unit kept
  is not white space. The default \<open>maxLength\<close> is 160.\<close>

theorem getExcerptText_truncation:
  "(length (cleanedText e) \<le> n \<longrightarrow> getExcerptText e (int n) = cleanedText e)
   \<and> (n < length (cleanedText e) \<longrightarrow>
        getExcerptText e (int n) = trim (take n (cleanedText e)) @ js ''...''
        \<and> length (getExcerptText e (int n)) \<le> n + 3
        \<and> (n = 0 \<or> \<not> isSpace (cleanedText e ! (n - 1)) \<longrightarrow>
             length (getExcerptText e (int n)) = n + 3))
   \<and> getExcerptTextDefault e = getExcerptText e (int 160)"
proof (intro conjI impI)
  show "getExcerptTextDefault e = getExcerptText e (int 160)"
    by (simp add: getExcerptTextDefault_def)
  show "getExcerptText e (int n) = cleanedText e" if "length (cleanedText e) \<le> n"
    using that by (simp add: getExcerptText_def Let_def)
  assume long: "n < length (cleanedText e)"
  show eq: "getExcerptText e (int n) = trim (take n (cleanedText e)) @ js ''...''"
    using long by (simp add: getExcerptText_def Let_def)
  have "length (trim (take n (cleanedText e))) \<le> length (take n (cleanedText e))"
    by (rule length_trim_le)
  then show "length (getExcerptText e (int n)) \<le> n + 3"
    using long by (simp add: eq js_def)
  assume last_ok: "n = 0 \<or> \<not> isSpace (cleanedText e ! (n - 1))"
  have "trim (take n (cleanedText e)) = take n (cleanedText e)"
  proof (cases "n = 0")
    case True
    then show ?thesis by (simp add: trim_def)
  next
    case False
    then have ne: "take n (cleanedText e) \<noteq> []" using long by auto
    have "hd (take n (cleanedText e)) = hd (cleanedText e)" using False by simp
    moreover have "cleanedText e \<noteq> []" using long by auto
    ultimately have h: "\<not> isSpace (hd (take n (cleanedText e)))"
      using cleanedText_starts_clean by simp
    have "last (take n (cleanedText e)) = cleanedText e ! (n - 1)"
      using False long ne by (simp add: last_conv_nth)
    then have l: "\<not> isSpace (last (take n (cleanedText e)))" using last_ok False by simp
    show ?thesis using h l by (simp add: trim_id)
  qed
  then show "length (getExcerptText e (int n)) = n + 3"
    using long by (simp add: eq js_def)
qed

lemma cleanedText_sample: "cleanedText (js ''<p>hello world foo</p>'') = js ''hello world foo''"
  by (simp add: cleanedText_def eval_defs)

text \<open>The length is not always \<open>maxLength + 3\<close>: cutting \<open>hello world foo\<close> after six
  code units leaves a trailing space, which the second \<open>trim\<close> removes.\<close>

theorem getExcerptText_length_counterexample:
  "6 < length (cleanedText (js ''<p>hello world foo</p>''))
   \<and> getExcerptText (js ''<p>hello world foo</p>'') 6 = js ''hello...''
   \<and> length (getExcerptText (js ''<p>hello world foo</p>'') 6) \<noteq> 6 + 3"
  by (simp add: getExcerptText_def cleanedText_sample) (simp add: eval_defs)

theorem getExcerptText_truncation_witness:
  "getExcerptText (js ''<p>hello world foo</p>'') 160 = js ''hello world foo''
   \<and> getExcerptText (js ''<p>hello world foo</p>'') 6 = js ''hello...''
   \<and> getExcerptText (js ''<p>hello world foo</p>'') 7 = js ''hello w...''
   \<and> length (getExcerptText (js ''<p>hello world foo</p>'') 7) = 7 + 3"
  using getExcerptText_truncation [of "js ''<p>hello world foo</p>''" 160]
        getExcerptText_truncation [of "js ''<p>hello world foo</p>''" 6]
        getExcerptText_truncation [of "js ''<p>hello world foo</p>''" 7]
  unfolding cleanedText_sample
  by (simp add: eval_defs)

section \<open>Evaluating the normaliser\<close>

lemmas pipeline_defs =
  processContent_def inlinePasses_def protectInlineCode_def blockPasses_def emphasis_def headings_def heading_def
  replicate_numeral

text \<open>Claim C2 fails on the code. The first pass takes the last backtick of the opening
  fence, the text up to the closing fence and the first backtick of the closing fence for
  an inline code span, so the later passes for fenced blocks find no fence: the
  paragraph with the fenced block of the specification keeps its \<open><p>\<close> and gets an
  inline \<open><code>\<close> element between stray backticks, with the language name inside the
  code and no \<open><pre>\<close>.\<close>

theorem fenced_block_not_rewritten:
  "processContent (js ''<p>```js'' @ [10] @ js ''const x = 1;'' @ [10] @ js ''```</p>'')
     = js ''<p>``<code>js'' @ [10] @ js ''const x = 1;'' @ [10] @ js ''</code>``</p>''"
  by (simp add: pipeline_defs eval_defs)




subsection \<open>Literals and occurrences\<close>

lemma afterLit_Some_iff: "afterLit L s = Some r \<longleftrightarrow> s = L @ r"
  by (induction L s rule: afterLit.induct) auto

lemma afterLit_append: "afterLit L (L @ r) = Some r"
  by (simp add: afterLit_Some_iff)

lemma afterLit_prefix: "afterLit L s = Some r \<Longrightarrow> prefix L s"
  by (simp add: afterLit_Some_iff)

lemma afterLit_None_iff: "afterLit L s = None \<longleftrightarrow> \<not> prefix L s"
proof (cases "afterLit L s")
  case None
  then show ?thesis
    by (metis afterLit_append not_None_eq prefixE)
next
  case (Some r)
  then show ?thesis by (simp add: afterLit_prefix)
qed

lemma not_occurs_suffix: "\<not> occurs pat (u @ v) \<Longrightarrow> \<not> occurs pat v"
  by (induction u) auto

lemma not_occurs_not_prefix: "\<not> occurs pat s \<Longrightarrow> \<not> prefix pat s"
  by (cases s) auto

lemma not_occurs_char: "pat \<noteq> [] \<Longrightarrow> hd pat \<notin> set s \<Longrightarrow> \<not> occurs pat s"
proof (induction s)
  case Nil
  then show ?case by simp
next
  case (Cons c cs)
  then have "\<not> prefix pat (c # cs)"
    by (cases pat) auto
  with Cons show ?case by simp
qed

lemma occurs_append_left:
  assumes "\<not> occurs pat a" and "x \<notin> set (tl pat)"
  shows "occurs pat (a @ x # b) = occurs pat (x # b)"
  using assms(1)
proof (induction a)
  case Nil
  then show ?case by simp
next
  case (Cons y ys)
  then have np: "\<not> prefix pat (y # ys)" and no: "\<not> occurs pat ys" by auto
  have "\<not> prefix pat ((y # ys) @ x # b)"
  proof
    assume "prefix pat ((y # ys) @ x # b)"
    then have "prefix pat (y # ys) \<or> (\<exists>us. pat = (y # ys) @ us \<and> prefix us (x # b))"
      by (simp only: prefix_append)
    then consider "prefix pat (y # ys)" | us where "pat = (y # ys) @ us" "prefix us (x # b)"
      by blast
    then show False
    proof cases
      case 1
      with np show ?thesis by simp
    next
      case 2
      show ?thesis
      proof (cases us)
        case Nil
        with 2 np show ?thesis by simp
      next
        case (Cons u us')
        with 2 have "u = x" by simp
        with 2 Cons have "x \<in> set (tl pat)" by simp
        with assms(2) show ?thesis by simp
      qed
    qed
  qed
  with Cons.IH no show ?case by simp
qed

lemma occurs_append_skip:
  assumes "pat \<noteq> []" and "hd pat \<notin> set t"
  shows "occurs pat (t @ s) = occurs pat s"
  using assms(2)
proof (induction t)
  case Nil
  then show ?case by simp
next
  case (Cons c cs)
  then have "\<not> prefix pat (c # cs @ s)" using assms(1) by (cases pat) auto
  with Cons show ?case by simp
qed

lemma not_anywhere_suffix: "\<not> anywhere Q (u @ v) \<Longrightarrow> \<not> anywhere Q v"
  by (induction u) auto

lemma not_anywhere_here: "\<not> anywhere Q s \<Longrightarrow> \<not> Q s"
  by (cases s) auto

lemma anywhere_mono: "(\<And>s. Q s \<Longrightarrow> Q' s) \<Longrightarrow> anywhere Q s \<Longrightarrow> anywhere Q' s"
  by (induction s) auto

lemma occurs_anywhere: "occurs pat s = anywhere (prefix pat) s"
  by (induction s) auto

lemma anywhere_append_left:
  assumes straddle: "\<And>v. v \<noteq> [] \<Longrightarrow> Q (v @ s) \<Longrightarrow> Q v"
    and no: "\<not> anywhere Q a"
  shows "anywhere Q (a @ s) = anywhere Q s"
  using no
proof (induction a)
  case Nil
  then show ?case by simp
next
  case (Cons y ys)
  have "\<not> Q ((y # ys) @ s)"
  proof
    assume "Q ((y # ys) @ s)"
    then have "Q (y # ys)" by (rule straddle [rotated]) simp
    with Cons.prems show False by simp
  qed
  moreover have "\<not> anywhere Q ys" using Cons.prems by simp
  ultimately show ?case using Cons.IH by simp
qed

subsection \<open>Scanning without a match, and over a match\<close>

lemma matchAll_no_trigger:
  assumes trig: "\<And>p s x. m p s = Some x \<Longrightarrow> prefix pat s"
    and ne: "pat \<noteq> []"
    and no: "\<not> occurs pat s"
  shows "matchAll m prev s = map Lit s"
  using no
proof (induction s arbitrary: prev)
  case Nil
  have "m prev [] = None"
  proof (cases "m prev []")
    case (Some x)
    from trig [OF Some] ne show ?thesis by simp
  qed simp
  then show ?case by simp
next
  case (Cons c cs)
  have "m prev (c # cs) = None"
  proof (cases "m prev (c # cs)")
    case (Some x)
    from trig [OF Some] Cons.prems show ?thesis by simp
  qed simp
  moreover have "\<not> occurs pat cs" using Cons.prems by simp
  ultimately show ?case using Cons.IH by simp
qed

lemma emit_Lits: "concat (map (emit f) (map Lit s)) = s"
  by (induction s) auto

lemma emit_Lits_comp: "concat (map (emit f \<circ> Lit) s) = s"
  by (induction s) auto

lemma replaceAll_no_trigger:
  assumes "\<And>p s x. m p s = Some x \<Longrightarrow> prefix pat s" and "pat \<noteq> []" and "\<not> occurs pat s"
  shows "replaceAll m f s = s"
proof -
  have "matchAll m None s = map Lit s" using assms by (rule matchAll_no_trigger)
  then show ?thesis unfolding replaceAll_def by (simp only: emit_Lits)
qed

lemma matchAll_quiet:
  assumes trig: "\<And>p s x. m p s = Some x \<Longrightarrow> Q s"
    and no: "\<not> anywhere Q s"
  shows "matchAll m prev s = map Lit s"
  using no
proof (induction s arbitrary: prev)
  case Nil
  have "m prev [] = None"
  proof (cases "m prev []")
    case (Some x)
    from trig [OF Some] Nil show ?thesis by simp
  qed simp
  then show ?case by simp
next
  case (Cons c cs)
  have "m prev (c # cs) = None"
  proof (cases "m prev (c # cs)")
    case (Some x)
    from trig [OF Some] Cons.prems show ?thesis by simp
  qed simp
  moreover have "\<not> anywhere Q cs" using Cons.prems by simp
  ultimately show ?case using Cons.IH by simp
qed

lemma replaceAll_quiet:
  assumes "\<And>p s x. m p s = Some x \<Longrightarrow> Q s" and "\<not> anywhere Q s"
  shows "replaceAll m f s = s"
proof -
  have "matchAll m None s = map Lit s" using assms by (rule matchAll_quiet)
  then show ?thesis unfolding replaceAll_def by (simp only: emit_Lits)
qed

lemma matchAll_skip:
  assumes "\<And>p v. v \<noteq> [] \<Longrightarrow> suffix v t \<Longrightarrow> m p (v @ s) = None"
  shows "matchAll m prev (t @ s) = map Lit t @ matchAll m (if t = [] then prev else Some (last t)) s"
  using assms
proof (induction t arbitrary: prev)
  case Nil
  then show ?case by simp
next
  case (Cons c cs)
  have "m prev ((c # cs) @ s) = None" by (rule Cons.prems) simp_all
  moreover have "matchAll m (Some c) (cs @ s)
      = map Lit cs @ matchAll m (if cs = [] then Some c else Some (last cs)) s"
  proof (rule Cons.IH)
    fix p v assume "v \<noteq> []" "suffix v cs"
    then show "m p (v @ s) = None" by (intro Cons.prems) (auto simp: suffix_Cons)
  qed
  ultimately show ?case by simp
qed

lemma matchAll_skip_trigger:
  assumes trig: "\<And>p s x. m p s = Some x \<Longrightarrow> prefix pat s"
    and ne: "pat \<noteq> []" and no: "hd pat \<notin> set t"
  shows "matchAll m prev (t @ s) = map Lit t @ matchAll m (if t = [] then prev else Some (last t)) s"
proof (rule matchAll_skip)
  fix p v assume v: "v \<noteq> []" "suffix v t"
  show "m p (v @ s) = None"
  proof (cases "m p (v @ s)")
    case (Some x)
    from trig [OF Some] have "prefix pat (v @ s)" .
    with ne v(1) have "hd pat = hd v" by (cases pat; cases v) auto
    moreover have "hd v \<in> set t" using v by (metis hd_in_set set_mono_suffix subsetD)
    ultimately show ?thesis using no by simp
  qed simp
qed

lemma matchAll_hit:
  assumes "m prev s = Some (n, g)" and "0 < n" and "s \<noteq> []"
  shows "matchAll m prev s = Hit (take n s) g # matchAll m (Some (last (take n s))) (drop n s)"
  using assms by (cases s) auto

subsection \<open>What each expression needs in order to match\<close>

lemma inlineCodeM_trigger: "inlineCodeM p s = Some x \<Longrightarrow> prefix (js ''`'') s"
  by (auto simp: inlineCodeM_def afterLit_prefix split: option.splits)

lemma placeholderM_trigger: "placeholderM p s = Some x \<Longrightarrow> prefix (js ''__CODE_BLOCK_'') s"
  by (auto simp: placeholderM_def afterLit_prefix split: option.splits)

lemma headingM_trigger: "headingM n p s = Some x \<Longrightarrow> prefix (js ''<p>'') s"
  by (auto simp: headingM_def afterLit_Some_iff split: option.splits)

lemma boldM_trigger: "boldM p s = Some x \<Longrightarrow> prefix (js ''**'') s"
  by (auto simp: boldM_def afterLit_prefix split: option.splits)

lemma italicM_trigger: "italicM p s = Some x \<Longrightarrow> prefix (js ''*'') s"
  by (auto simp: italicM_def afterLit_prefix split: option.splits if_splits)

lemma blockquoteM_trigger: "blockquoteM p s = Some x \<Longrightarrow> prefix (js ''<p>'') s"
  by (auto simp: blockquoteM_def afterLit_Some_iff js_def split: option.splits)

lemma ruleM_trigger: "ruleM p s = Some x \<Longrightarrow> prefix (js ''<p>'') s"
  by (auto simp: ruleM_def afterLit_prefix split: option.splits)

lemma wrappedFenceM_trigger: "wrappedFenceM fence p s = Some x \<Longrightarrow> prefix (js ''<p>'') s"
  by (auto simp: wrappedFenceM_def afterLit_Some_iff split: option.splits)

lemma fenceM_trigger: "fenceM p s = Some x \<Longrightarrow> prefix (js ''```'') s"
  by (auto simp: fenceM_def afterLit_prefix split: option.splits)

lemma orderedM_trigger: "orderedM p s = Some x \<Longrightarrow> prefix (js ''<p>'') s"
  by (auto simp: orderedM_def afterLit_prefix split: option.splits)

lemma unorderedM_trigger: "unorderedM p s = Some x \<Longrightarrow> prefix (js ''<p>'') s"
  by (auto simp: unorderedM_def afterLit_prefix split: option.splits list.splits)

lemma blockStart_iff: "blockStart s \<longleftrightarrow> (\<exists>c r. s = js ''<p>'' @ c # r \<and> blockMarker c)"
proof
  assume "blockStart s"
  then obtain c r where "afterLit (js ''<p>'') s = Some (c # r)" "blockMarker c"
    by (auto simp: blockStart_def split: option.splits list.splits)
  then show "\<exists>c r. s = js ''<p>'' @ c # r \<and> blockMarker c"
    by (auto simp: afterLit_Some_iff)
next
  assume "\<exists>c r. s = js ''<p>'' @ c # r \<and> blockMarker c"
  then obtain c r where "s = js ''<p>'' @ c # r" "blockMarker c" by blast
  then show "blockStart s" by (simp add: blockStart_def afterLit_append)
qed

lemma blockStartI: "blockMarker c \<Longrightarrow> blockStart (js ''<p>'' @ c # r)"
  by (auto simp: blockStart_iff)

lemma headingM_parts:
  assumes "headingM n p s = Some x"
  shows "\<exists>r. s = js ''<p>'' @ replicate n (ch CHR ''#'') @ r"
proof -
  from assms obtain r where "afterLit (js ''<p>'' @ replicate n (ch CHR ''#'')) s = Some r"
    by (auto simp: headingM_def split: option.splits)
  then show ?thesis by (auto simp: afterLit_Some_iff)
qed

lemma headingM_blockStart: "headingM (Suc n) p s = Some x \<Longrightarrow> blockStart s"
  by (drule headingM_parts) (auto intro!: blockStartI simp: blockMarker_def)

lemma headingM_hash: "headingM (Suc n) p s = Some x \<Longrightarrow> prefix (js ''<p>#'') s"
  by (drule headingM_parts) (auto simp: js_def)

lemma blockquoteM_blockStart:
  assumes "blockquoteM p s = Some x"
  shows "blockStart s"
proof -
  from assms obtain r where "afterLit (js ''<p>&gt;'') s = Some r"
    by (auto simp: blockquoteM_def split: option.splits)
  then have "s = js ''<p>&gt;'' @ r" by (simp add: afterLit_Some_iff)
  also have "js ''<p>&gt;'' @ r = js ''<p>'' @ ch CHR ''&'' # (js ''gt;'' @ r)" by (simp add: js_def)
  finally show ?thesis by (auto intro!: blockStartI simp: blockMarker_def)
qed

lemma takeWhile_nonempty_hd: "takeWhile P r \<noteq> [] \<Longrightarrow> \<exists>c r'. r = c # r' \<and> P c"
  by (cases r) (auto split: if_splits)

lemma ruleM_blockStart:
  assumes "ruleM p s = Some x"
  shows "blockStart s"
proof -
  from assms obtain r where "afterLit (js ''<p>'') s = Some r"
    and l: "3 \<le> length (takeWhile isRuleChar r)"
    by (auto simp: ruleM_def Let_def split: option.splits if_splits)
  then have r: "s = js ''<p>'' @ r" by (simp add: afterLit_Some_iff)
  from l have "takeWhile isRuleChar r \<noteq> []" by auto
  then obtain c r' where "r = c # r'" "isRuleChar c" by (auto dest: takeWhile_nonempty_hd)
  then show ?thesis using r by (auto intro!: blockStartI simp: blockMarker_def isRuleChar_def)
qed

lemma wrappedFenceM_blockStart:
  assumes "wrappedFenceM (c # fence) p s = Some x" and "blockMarker c"
  shows "blockStart s"
proof -
  from assms obtain r where "afterLit (js ''<p>'' @ c # fence) s = Some r"
    by (auto simp: wrappedFenceM_def split: option.splits)
  then have "s = js ''<p>'' @ c # (fence @ r)" by (simp add: afterLit_Some_iff)
  then show ?thesis using assms(2) by (auto intro!: blockStartI)
qed

lemma orderedM_blockStart:
  assumes "orderedM p s = Some x"
  shows "blockStart s"
proof -
  from assms obtain r where "afterLit (js ''<p>'') s = Some r" and l: "takeWhile isDigit r \<noteq> []"
    by (auto simp: orderedM_def Let_def split: option.splits if_splits)
  then have r: "s = js ''<p>'' @ r" by (simp add: afterLit_Some_iff)
  from l obtain c r' where "r = c # r'" "isDigit c" by (auto dest: takeWhile_nonempty_hd)
  then show ?thesis using r by (auto intro!: blockStartI simp: blockMarker_def)
qed

lemma unorderedM_blockStart:
  assumes "unorderedM p s = Some x"
  shows "blockStart s"
proof -
  from assms obtain b r where "afterLit (js ''<p>'') s = Some (b # r)" and "isBullet b"
    by (auto simp: unorderedM_def Let_def split: option.splits list.splits if_splits)
  then have "s = js ''<p>'' @ b # r" "isBullet b" by (simp_all add: afterLit_Some_iff)
  then show ?thesis by (auto intro!: blockStartI simp: blockMarker_def isBullet_def)
qed

subsection \<open>Passes that find nothing to rewrite\<close>

lemma protect_Lits: "protect (map Lit s) cbs = (s, cbs)"
  by (induction s) auto

lemma protectInlineCode_no_backtick:
  assumes "ch CHR ''`'' \<notin> set s"
  shows "protectInlineCode s = (s, [])"
proof -
  have "\<not> occurs (js ''`'') s"
    using assms by (intro not_occurs_char) (simp_all add: js_def)
  then have "matchAll inlineCodeM None s = map Lit s"
    by (intro matchAll_no_trigger [where pat = "js ''`''"] inlineCodeM_trigger) (simp_all add: js_def)
  then show ?thesis by (simp add: protectInlineCode_def protect_Lits)
qed

lemma heading_noop:
  assumes "\<not> occurs (js ''<p>#'') s" and "0 < n"
  shows "heading n s = s"
proof -
  from assms(2) obtain k where n: "n = Suc k" by (cases n) auto
  show ?thesis unfolding heading_def n
    by (rule replaceAll_no_trigger [where pat = "js ''<p>#''"])
       (simp_all add: headingM_hash assms(1), simp add: js_def)
qed

lemma headings_noop: "\<not> occurs (js ''<p>#'') s \<Longrightarrow> headings s = s"
  by (simp add: headings_def heading_noop)

lemma prefix_hash_blockStart: "prefix (js ''<p>#'') s \<Longrightarrow> blockStart s"
proof -
  assume "prefix (js ''<p>#'') s"
  then obtain r where "s = js ''<p>#'' @ r" by (auto elim: prefixE)
  then have "s = js ''<p>'' @ ch CHR ''#'' # r" by (simp add: js_def)
  then show ?thesis by (auto intro!: blockStartI simp: blockMarker_def)
qed

lemma no_blockStart_no_hash: "\<not> anywhere blockStart s \<Longrightarrow> \<not> occurs (js ''<p>#'') s"
  unfolding occurs_anywhere using anywhere_mono [of "prefix (js ''<p>#'')" blockStart s]
  by (auto intro: prefix_hash_blockStart)

lemma bold_noop:
  assumes "ch CHR ''*'' \<notin> set s"
  shows "replaceAll boldM f s = s"
proof (rule replaceAll_no_trigger [where pat = "js ''**''"])
  show "\<not> occurs (js ''**'') s"
    using assms by (intro not_occurs_char) (simp_all add: js_def)
qed (simp_all add: boldM_trigger, simp add: js_def)

lemma italic_noop:
  assumes "ch CHR ''*'' \<notin> set s"
  shows "replaceAll italicM f s = s"
proof (rule replaceAll_no_trigger [where pat = "js ''*''"])
  show "\<not> occurs (js ''*'') s"
    using assms by (intro not_occurs_char) (simp_all add: js_def)
qed (simp_all add: italicM_trigger, simp add: js_def)

lemma emphasis_noop: "ch CHR ''*'' \<notin> set s \<Longrightarrow> emphasis s = s"
  by (simp add: emphasis_def bold_noop italic_noop)

lemma restore_noop: "\<not> occurs (js ''__CODE_BLOCK_'') s \<Longrightarrow> replaceAll placeholderM f s = s"
  by (rule replaceAll_no_trigger [where pat = "js ''__CODE_BLOCK_''"])
     (simp_all add: placeholderM_trigger, simp add: js_def)

lemma blockPasses_noop:
  assumes p: "\<not> anywhere blockStart s" and b: "ch CHR ''`'' \<notin> set s"
  shows "blockPasses s = s"
proof -
  have w1: "replaceAll (wrappedFenceM (js ''```'')) f s = s" for f
  proof (rule replaceAll_quiet [where Q = blockStart, OF _ p])
    fix q t x assume "wrappedFenceM (js ''```'') q t = Some x"
    then have "wrappedFenceM (ch CHR ''`'' # js ''``'') q t = Some x" by (simp add: js_def)
    then show "blockStart t" by (rule wrappedFenceM_blockStart) (simp add: blockMarker_def)
  qed
  have w2: "replaceAll (wrappedFenceM (js ''~~~'')) f s = s" for f
  proof (rule replaceAll_quiet [where Q = blockStart, OF _ p])
    fix q t x assume "wrappedFenceM (js ''~~~'') q t = Some x"
    then have "wrappedFenceM (ch CHR ''~'' # js ''~~'') q t = Some x" by (simp add: js_def)
    then show "blockStart t" by (rule wrappedFenceM_blockStart) (simp add: blockMarker_def)
  qed
  have "\<not> occurs (js ''```'') s"
    using b by (intro not_occurs_char) (simp_all add: js_def)
  then have f: "replaceAll fenceM f s = s" for f
    by (intro replaceAll_no_trigger [where pat = "js ''```''"] fenceM_trigger) (simp_all add: js_def)
  have q: "replaceAll blockquoteM f s = s" for f
    using blockquoteM_blockStart p by (rule replaceAll_quiet)
  have r: "replaceAll ruleM f s = s" for f
    using ruleM_blockStart p by (rule replaceAll_quiet)
  have ol: "replaceAll orderedM f s = s" for f
    using orderedM_blockStart p by (rule replaceAll_quiet)
  have ul: "replaceAll unorderedM f s = s" for f
    using unorderedM_blockStart p by (rule replaceAll_quiet)
  show ?thesis by (simp add: blockPasses_def w1 w2 f q r ol ul)
qed

lemma processContent_no_backtick:
  "ch CHR ''`'' \<notin> set s \<Longrightarrow>
   processContent s = blockPasses (replaceAll placeholderM (restoreCode []) (emphasis (headings s)))"
  by (simp add: processContent_def inlinePasses_def protectInlineCode_no_backtick)


lemma quiet_unchanged:
  assumes "quiet s"
  shows "processContent s = s"
proof -
  from assms have st: "ch CHR ''*'' \<notin> set s"
    and bt: "ch CHR ''`'' \<notin> set s" and ph: "\<not> occurs (js ''__CODE_BLOCK_'') s"
    and bs: "\<not> anywhere blockStart s"
    by (simp_all add: quiet_def)
  show ?thesis
    by (simp add: processContent_no_backtick bt headings_noop no_blockStart_no_hash bs
          emphasis_noop st restore_noop ph blockPasses_noop)
qed

lemma plain_quiet: "plain t \<Longrightarrow> quiet t"
proof -
  assume p: "plain t"
  then have "ch CHR ''<'' \<notin> set t" by (simp add: plain_def)
  then have "\<not> occurs (js ''<p>'') t" by (intro not_occurs_char) (simp_all add: js_def)
  then have "\<not> anywhere (prefix (js ''<p>'')) t" by (simp add: occurs_anywhere)
  moreover have "blockStart s \<Longrightarrow> prefix (js ''<p>'') s" for s by (auto simp: blockStart_iff)
  ultimately have "\<not> anywhere blockStart t" using anywhere_mono by blast
  with p show ?thesis by (simp add: plain_def quiet_def)
qed

subsection \<open>Across the boundary of a text and a tag\<close>

lemma blockStart_straddle:
  assumes "v \<noteq> []" and "blockStart (v @ ch CHR ''<'' # b)"
  shows "blockStart v"
proof -
  from assms(2) obtain c r where e: "v @ ch CHR ''<'' # b = js ''<p>'' @ c # r" and m: "blockMarker c"
    by (auto simp: blockStart_iff)
  have nm: "\<not> blockMarker (ch CHR ''<'')" by (simp add: blockMarker_def ch_def isDigit_def)
  from assms(1) obtain v1 w1 where v: "v = v1 # w1" by (cases v) auto
  show ?thesis
  proof (cases w1)
    case Nil
    with e v show ?thesis by (simp add: js_def ch_def)
  next
    case (Cons v2 w2)
    note c2 = Cons
    show ?thesis
    proof (cases w2)
      case Nil
      with e v c2 show ?thesis by (simp add: js_def ch_def)
    next
      case (Cons v3 w3)
      note c3 = Cons
      show ?thesis
      proof (cases w3)
        case Nil
        with e v c2 c3 m nm show ?thesis by (auto simp add: js_def)
      next
        case (Cons v4 w4)
        with e v c2 c3 have "v = js ''<p>'' @ c # w4" by (simp add: js_def)
        with m show ?thesis by (auto intro!: blockStartI)
      qed
    qed
  qed
qed

lemma no_blockStart_append_tag:
  "\<not> anywhere blockStart a \<Longrightarrow>
   anywhere blockStart (a @ ch CHR ''<'' # b) = anywhere blockStart (ch CHR ''<'' # b)"
  by (rule anywhere_append_left) (auto intro: blockStart_straddle)

subsection \<open>Emphasis spans\<close>

lemma dotPlusLazy_exact:
  assumes "b \<noteq> []" and "oneLine b" and "L \<noteq> []" and "hd L \<notin> set b"
  shows "dotPlusLazy L (b @ L @ r) = Some b"
  using assms(1,2,4)
proof (induction b)
  case Nil
  then show ?case by simp
next
  case (Cons c cs)
  then have nl: "\<not> isLineTerminator c" by (simp add: oneLine_def)
  show ?case
  proof (cases cs)
    case Nil
    then show ?thesis using nl by simp
  next
    case (Cons d ds)
    with Cons.prems have "hd L \<noteq> d" by auto
    then have np: "\<not> prefix L (cs @ L @ r)" using Cons assms(3) by (cases L) auto
    have "dotPlusLazy L (cs @ L @ r) = Some cs"
      using Cons.IH Cons.prems Cons by (simp add: oneLine_def)
    then show ?thesis using nl np by simp
  qed
qed

lemma quiet_parts:
  assumes "quiet t"
  shows "ch CHR ''*'' \<notin> set t" and "ch CHR ''`'' \<notin> set t"
    and "\<not> occurs (js ''__CODE_BLOCK_'') t" and "\<not> anywhere blockStart t"
    and "\<not> occurs (js ''<p>#'') t"
  using assms by (simp_all add: quiet_def no_blockStart_no_hash)

lemma boldM_span:
  assumes "b \<noteq> []" and "oneLine b" and "ch CHR ''*'' \<notin> set b"
  shows "boldM p (js ''**'' @ b @ js ''**'' @ r) = Some (2 + length b + 2, b)"
proof -
  have "dotPlusLazy (js ''**'') (b @ js ''**'' @ r) = Some b"
    using assms by (intro dotPlusLazy_exact) (simp_all add: js_def)
  then show ?thesis by (simp add: boldM_def afterLit_append)
qed

lemma bold_span:
  assumes t0: "ch CHR ''*'' \<notin> set t0" and t1: "ch CHR ''*'' \<notin> set t1"
    and b: "b \<noteq> []" "oneLine b" "ch CHR ''*'' \<notin> set b"
  shows "replaceAll boldM f (t0 @ js ''**'' @ b @ js ''**'' @ t1)
           = t0 @ f (js ''**'' @ b @ js ''**'') b @ t1"
proof -
  let ?S = "js ''**'' @ b @ js ''**'' @ t1"
  let ?p = "if t0 = [] then None else Some (last t0)"
  have ne: "js ''**'' \<noteq> []" by (simp add: js_def)
  have 1: "matchAll boldM None (t0 @ ?S) = map Lit t0 @ matchAll boldM ?p ?S"
    by (rule matchAll_skip_trigger [where pat = "js ''**''"])
       (simp_all add: boldM_trigger, simp_all add: js_def t0)
  have n: "take (2 + length b + 2) ?S = js ''**'' @ b @ js ''**''"
    "drop (2 + length b + 2) ?S = t1"
    by (simp_all add: js_def)
  have 2: "matchAll boldM ?p ?S
      = Hit (js ''**'' @ b @ js ''**'') b # matchAll boldM (Some (last (js ''**'' @ b @ js ''**''))) t1"
    using matchAll_hit [of boldM ?p ?S "2 + length b + 2" b] boldM_span [OF b, of ?p t1] n
    by (simp add: js_def)
  have no: "\<not> occurs (js ''**'') t1" using ne by (rule not_occurs_char) (simp add: js_def t1)
  have 3: "matchAll boldM q t1 = map Lit t1" for q
    by (rule matchAll_no_trigger [where pat = "js ''**''"]) (simp_all add: boldM_trigger ne no)
  show ?thesis unfolding replaceAll_def 1 2 3 by (simp add: emit_Lits_comp)
qed

lemma italicM_span:
  assumes "i \<noteq> []" and "ch CHR ''*'' \<notin> set i" and "p \<noteq> Some (ch CHR ''*'')"
    and "r = [] \<or> hd r \<noteq> ch CHR ''*''"
  shows "italicM p (js ''*'' @ i @ js ''*'' @ r) = Some (1 + length i + 1, i)"
proof -
  have "takeWhile (\<lambda>c. c \<noteq> ch CHR ''*'') (i @ ch CHR ''*'' # r)
          = takeWhile (\<lambda>c. c \<noteq> ch CHR ''*'') i"
    by (rule takeWhile_tail) simp
  also have "\<dots> = i" using assms(2) by (auto simp: takeWhile_eq_all_conv)
  finally have tw: "takeWhile (\<lambda>c. c \<noteq> ch CHR ''*'') (i @ ch CHR ''*'' # r) = i" .
  have "dropWhile (\<lambda>c. c \<noteq> ch CHR ''*'') (i @ ch CHR ''*'' # r)
          = dropWhile (\<lambda>c. c \<noteq> ch CHR ''*'') i @ ch CHR ''*'' # r"
    by (rule dropWhile_append3) simp
  also have "dropWhile (\<lambda>c. c \<noteq> ch CHR ''*'') i = []" using assms(2) by auto
  finally have dw: "dropWhile (\<lambda>c. c \<noteq> ch CHR ''*'') (i @ ch CHR ''*'' # r) = ch CHR ''*'' # r"
    by simp
  have e: "js ''*'' @ i @ js ''*'' @ r = js ''*'' @ (i @ ch CHR ''*'' # r)" by (simp add: js_def)
  show ?thesis unfolding e italicM_def
    using assms(1,3,4) by (simp add: afterLit_append tw dw Let_def split: list.splits) auto
qed

lemma italic_span:
  assumes t0: "ch CHR ''*'' \<notin> set t0" and t1: "ch CHR ''*'' \<notin> set t1"
    and i: "i \<noteq> []" "ch CHR ''*'' \<notin> set i"
  shows "replaceAll italicM f (t0 @ js ''*'' @ i @ js ''*'' @ t1)
           = t0 @ f (js ''*'' @ i @ js ''*'') i @ t1"
proof -
  let ?S = "js ''*'' @ i @ js ''*'' @ t1"
  let ?p = "if t0 = [] then None else Some (last t0)"
  have ne: "js ''*'' \<noteq> []" by (simp add: js_def)
  have 1: "matchAll italicM None (t0 @ ?S) = map Lit t0 @ matchAll italicM ?p ?S"
    by (rule matchAll_skip_trigger [where pat = "js ''*''"])
       (simp_all add: italicM_trigger, simp_all add: js_def t0)
  have p: "?p \<noteq> Some (ch CHR ''*'')" using t0 by (auto dest: last_in_set)
  have r: "t1 = [] \<or> hd t1 \<noteq> ch CHR ''*''" using t1 by (cases t1) auto
  have n: "take (1 + length i + 1) ?S = js ''*'' @ i @ js ''*''"
    "drop (1 + length i + 1) ?S = t1"
    by (simp_all add: js_def)
  have 2: "matchAll italicM ?p ?S
      = Hit (js ''*'' @ i @ js ''*'') i # matchAll italicM (Some (last (js ''*'' @ i @ js ''*''))) t1"
    using matchAll_hit [of italicM ?p ?S "1 + length i + 1" i] italicM_span [OF i p r] n
    by (simp add: js_def)
  have no: "\<not> occurs (js ''*'') t1" using ne by (rule not_occurs_char) (simp add: js_def t1)
  have 3: "matchAll italicM q t1 = map Lit t1" for q
    by (rule matchAll_no_trigger [where pat = "js ''*''"]) (simp_all add: italicM_trigger ne no)
  show ?thesis unfolding replaceAll_def 1 2 3 by (simp add: emit_Lits_comp)
qed

subsection \<open>Quiet text around tags\<close>

lemma quiet_Cons:
  "quiet (c # s) \<longleftrightarrow>
     c \<noteq> ch CHR ''*'' \<and> c \<noteq> ch CHR ''`'' \<and> \<not> prefix (js ''__CODE_BLOCK_'') (c # s)
     \<and> \<not> blockStart (c # s) \<and> quiet s"
  by (auto simp: quiet_def)

lemma quiet_Nil: "quiet []"
  by (simp add: quiet_def blockStart_def js_def)

lemma quiet_append_tag:
  assumes "quiet a" and "quiet (ch CHR ''<'' # b)"
  shows "quiet (a @ ch CHR ''<'' # b)"
proof -
  have "ch CHR ''<'' \<notin> set (tl (js ''__CODE_BLOCK_''))" by (simp add: js_def ch_def)
  then have "occurs (js ''__CODE_BLOCK_'') (a @ ch CHR ''<'' # b)
      = occurs (js ''__CODE_BLOCK_'') (ch CHR ''<'' # b)"
    using assms(1) by (intro occurs_append_left) (simp_all add: quiet_def)
  moreover have "anywhere blockStart (a @ ch CHR ''<'' # b) = anywhere blockStart (ch CHR ''<'' # b)"
    using assms(1) by (intro no_blockStart_append_tag) (simp add: quiet_def)
  ultimately show ?thesis using assms by (simp add: quiet_def)
qed

text \<open>A tag: it opens with \<open><\<close>, which is followed by a letter or a slash, and it has no
  asterisk, backtick or underscore.\<close>

lemma quiet_strong: "quiet s \<Longrightarrow> quiet (js ''<strong>'' @ s)"
  by (simp add: js_def ch_def quiet_Cons blockStart_def)

lemma quiet_strong_end: "quiet s \<Longrightarrow> quiet (js ''</strong>'' @ s)"
  by (simp add: js_def ch_def quiet_Cons blockStart_def)

lemma quiet_em: "quiet s \<Longrightarrow> quiet (js ''<em>'' @ s)"
  by (simp add: js_def ch_def quiet_Cons blockStart_def)

lemma quiet_em_end: "quiet s \<Longrightarrow> quiet (js ''</em>'' @ s)"
  by (simp add: js_def ch_def quiet_Cons blockStart_def)

lemma quiet_wrapped:
  assumes "quiet t0" and "quiet b" and "quiet t1"
    and o: "\<And>s. quiet s \<Longrightarrow> quiet (ch CHR ''<'' # opn @ s)"
    and c: "\<And>s. quiet s \<Longrightarrow> quiet (ch CHR ''<'' # cls @ s)"
  shows "quiet (t0 @ (ch CHR ''<'' # opn) @ b @ (ch CHR ''<'' # cls) @ t1)"
proof -
  have "quiet (ch CHR ''<'' # cls @ t1)" using assms(3) by (rule c)
  then have "quiet (b @ ch CHR ''<'' # cls @ t1)" using assms(2) by (intro quiet_append_tag)
  then have "quiet (ch CHR ''<'' # opn @ b @ ch CHR ''<'' # cls @ t1)" by (rule o)
  then have "quiet (t0 @ ch CHR ''<'' # opn @ b @ ch CHR ''<'' # cls @ t1)"
    using assms(1) by (intro quiet_append_tag)
  then show ?thesis by simp
qed

lemma no_hash_append:
  assumes "\<not> occurs (js ''<p>#'') a" and "x \<noteq> ch CHR ''p''" and "x \<noteq> ch CHR ''>''" and "x \<noteq> ch CHR ''#''"
  shows "occurs (js ''<p>#'') (a @ x # b) = occurs (js ''<p>#'') (x # b)"
  using assms(1) by (rule occurs_append_left) (use assms(2-4) in \<open>simp add: js_def\<close>)

lemma no_hash_Cons: "x \<noteq> ch CHR ''<'' \<Longrightarrow> occurs (js ''<p>#'') (x # b) = occurs (js ''<p>#'') b"
  by (simp add: js_def)

lemma processContent_emphasis_only:
  assumes bt: "ch CHR ''`'' \<notin> set s" and h: "\<not> occurs (js ''<p>#'') s" and q: "quiet (emphasis s)"
  shows "processContent s = emphasis s"
proof -
  from q have "\<not> occurs (js ''__CODE_BLOCK_'') (emphasis s)" "\<not> anywhere blockStart (emphasis s)"
    "ch CHR ''`'' \<notin> set (emphasis s)"
    by (simp_all add: quiet_def)
  then show ?thesis
    by (simp add: processContent_no_backtick bt headings_noop h restore_noop blockPasses_noop)
qed

lemma bold_span_processed:
  assumes "quiet t0" and "quiet b" and "quiet t1" and "oneLine b" and "b \<noteq> []"
  shows "processContent (t0 @ js ''**'' @ b @ js ''**'' @ t1)
           = t0 @ js ''<strong>'' @ b @ js ''</strong>'' @ t1"
proof -
  let ?s = "t0 @ js ''**'' @ b @ js ''**'' @ t1"
  let ?s2 = "t0 @ js ''<strong>'' @ b @ js ''</strong>'' @ t1"
  note q0 = quiet_parts [OF assms(1)] and qb = quiet_parts [OF assms(2)]
    and q1 = quiet_parts [OF assms(3)]
  have stars: "ch CHR ''*'' \<noteq> ch CHR ''p''" "ch CHR ''*'' \<noteq> ch CHR ''>''"
    "ch CHR ''*'' \<noteq> ch CHR ''#''" "ch CHR ''*'' \<noteq> ch CHR ''<''"
    by (simp_all add: ch_def)
  have bt: "ch CHR ''`'' \<notin> set ?s" using q0 qb q1 by (simp add: js_def ch_def)
  have e: "?s = t0 @ ch CHR ''*'' # ch CHR ''*'' # b @ ch CHR ''*'' # ch CHR ''*'' # t1"
    by (simp add: js_def)
  have h: "\<not> occurs (js ''<p>#'') ?s"
    unfolding e using q0(5) qb(5) q1(5) stars by (simp add: no_hash_append) (simp add: js_def ch_def)
  have b: "replaceAll boldM (\<lambda>w cap. js ''<strong>'' @ cap @ js ''</strong>'') ?s = ?s2"
    using q0 qb q1 assms(4,5) by (simp add: bold_span)
  have "quiet ?s2"
    using quiet_wrapped [OF assms(1-3), of "js ''strong>''" "js ''/strong>''"]
      quiet_strong quiet_strong_end by (simp add: js_def)
  moreover from this have "ch CHR ''*'' \<notin> set ?s2" by (simp add: quiet_def)
  ultimately have "emphasis ?s = ?s2" "quiet (emphasis ?s)"
    by (simp_all add: emphasis_def b italic_noop)
  with bt h show ?thesis by (simp add: processContent_emphasis_only)
qed

lemma italic_span_processed:
  assumes "quiet t0" and "quiet i" and "quiet t1" and "i \<noteq> []"
  shows "processContent (t0 @ js ''*'' @ i @ js ''*'' @ t1)
           = t0 @ js ''<em>'' @ i @ js ''</em>'' @ t1"
proof -
  let ?s = "t0 @ js ''*'' @ i @ js ''*'' @ t1"
  let ?s2 = "t0 @ js ''<em>'' @ i @ js ''</em>'' @ t1"
  note q0 = quiet_parts [OF assms(1)] and qi = quiet_parts [OF assms(2)]
    and q1 = quiet_parts [OF assms(3)]
  have stars: "ch CHR ''*'' \<noteq> ch CHR ''p''" "ch CHR ''*'' \<noteq> ch CHR ''>''"
    "ch CHR ''*'' \<noteq> ch CHR ''#''" "ch CHR ''*'' \<noteq> ch CHR ''<''"
    by (simp_all add: ch_def)
  have bt: "ch CHR ''`'' \<notin> set ?s" using q0 qi q1 by (simp add: js_def ch_def)
  have e: "?s = t0 @ ch CHR ''*'' # i @ ch CHR ''*'' # t1"
    by (simp add: js_def)
  have h: "\<not> occurs (js ''<p>#'') ?s"
    unfolding e using q0(5) qi(5) q1(5) stars by (simp add: no_hash_append) (simp add: js_def ch_def)
  have "\<not> occurs (js ''**'') ?s"
  proof -
    have 1: "occurs (js ''**'') (t0 @ ch CHR ''*'' # i @ ch CHR ''*'' # t1)
             = occurs (js ''**'') (ch CHR ''*'' # i @ ch CHR ''*'' # t1)"
      by (rule occurs_append_skip) (simp_all add: js_def q0)
    have 2: "occurs (js ''**'') (i @ ch CHR ''*'' # t1) = occurs (js ''**'') (ch CHR ''*'' # t1)"
      by (rule occurs_append_skip) (simp_all add: js_def qi)
    have 3: "\<not> occurs (js ''**'') t1"
      by (rule not_occurs_char) (simp_all add: js_def q1)
    have 4: "\<not> prefix (js ''**'') (ch CHR ''*'' # i @ ch CHR ''*'' # t1)"
      using assms(4) qi(1) by (cases i) (auto simp: js_def)
    have 5: "\<not> prefix (js ''**'') (ch CHR ''*'' # t1)"
      using q1(1) by (cases t1) (auto simp: js_def)
    show ?thesis unfolding e 1 using 2 3 4 5 by simp
  qed
  then have b: "replaceAll boldM f ?s = ?s" for f
    by (intro replaceAll_no_trigger [where pat = "js ''**''"] boldM_trigger) (simp_all add: js_def)
  have it: "replaceAll italicM (\<lambda>w body. js ''<em>'' @ body @ js ''</em>'') ?s = ?s2"
    using q0 qi q1 assms(4) by (simp add: italic_span)
  have "quiet ?s2"
    using quiet_wrapped [OF assms(1-3), of "js ''em>''" "js ''/em>''"]
      quiet_em quiet_em_end by (simp add: js_def)
  moreover have "emphasis ?s = ?s2" by (simp add: emphasis_def b it)
  ultimately show ?thesis using bt h by (simp add: processContent_emphasis_only)
qed

subsection \<open>Heading paragraphs\<close>

lemma not_prefix_straddle:
  assumes "v \<noteq> []" and "\<not> prefix pat v" and "x \<notin> set (tl pat)"
  shows "\<not> prefix pat (v @ x # b)"
proof
  assume "prefix pat (v @ x # b)"
  then have "prefix pat v \<or> (\<exists>us. pat = v @ us \<and> prefix us (x # b))"
    by (simp only: prefix_append)
  with assms(2) obtain us where us: "pat = v @ us" "prefix us (x # b)" by blast
  show False
  proof (cases us)
    case Nil
    with us assms(2) show ?thesis by simp
  next
    case (Cons u us')
    with us have "u = x" by simp
    with us Cons assms(1) have "x \<in> set (tl pat)" by (cases v) auto
    with assms(3) show ?thesis by simp
  qed
qed

lemma matchAll_skip_occ:
  assumes trig: "\<And>p s x. m p s = Some x \<Longrightarrow> prefix pat s"
    and no: "\<not> occurs pat t" and x: "x \<notin> set (tl pat)"
  shows "matchAll m prev (t @ x # r)
           = map Lit t @ matchAll m (if t = [] then prev else Some (last t)) (x # r)"
proof (rule matchAll_skip)
  fix p v assume v: "v \<noteq> []" "suffix v t"
  from v(2) obtain u where "t = u @ v" by (auto simp: suffix_def)
  with no have "\<not> occurs pat v" by (auto dest: not_occurs_suffix)
  then have "\<not> prefix pat v" by (rule not_occurs_not_prefix)
  with v(1) have np: "\<not> prefix pat (v @ x # r)" using x by (rule not_prefix_straddle)
  show "m p (v @ x # r) = None"
  proof (cases "m p (v @ x # r)")
    case (Some y)
    from trig [OF Some] np show ?thesis by simp
  qed simp
qed

lemma occurs_longer: "prefix a b \<Longrightarrow> occurs b s \<Longrightarrow> occurs a s"
  by (induction s) (auto intro: prefix_order.trans)

lemma headingM_pat: "headingM n p s = Some x \<Longrightarrow> prefix (js ''<p>'' @ replicate n (ch CHR ''#'')) s"
  by (drule headingM_parts) auto

lemma hash_run_longer:
  assumes "n < k" and "X = [] \<or> hd X \<noteq> h"
  shows "\<not> prefix (replicate k h) (replicate n h @ X)"
  using assms(1)
proof (induction n arbitrary: k)
  case 0
  then obtain k' where "k = Suc k'" by (cases k) auto
  with assms(2) show ?case by (cases X) auto
next
  case (Suc n)
  then obtain k' where "k = Suc k'" "n < k'" by (cases k) auto
  with Suc.IH show ?case by simp
qed

lemma wsThenDot_exact:
  assumes "list_all isSpace ws" and "t \<noteq> []" and "\<not> isSpace (hd t)"
    and "dotPlusLazy L (t @ r) = Some cap"
  shows "wsThenDot L (ws @ t @ r) = Some (length ws, cap)"
  using assms(1)
proof (induction ws)
  case Nil
  from assms(2) obtain c cs where "t = c # cs" by (cases t) auto
  with assms(3,4) show ?case by simp
next
  case (Cons w ws)
  then show ?case by simp
qed

text \<open>The document of the heading properties: a paragraph of \<open>n\<close> hash marks, white
  space and a text, between two quiet texts.\<close>

lemma heading_above:
  assumes pre: "quiet pre" and post: "quiet post" and t: "plain t" "t \<noteq> []" "hd t \<noteq> ch CHR ''#''"
    "\<not> isSpace (hd t)" and ws: "list_all isSpace ws" and k: "n < k"
  shows "heading k (pre @ js ''<p>'' @ replicate n (ch CHR ''#'') @ ws @ t @ js ''</p>'' @ post)
           = pre @ js ''<p>'' @ replicate n (ch CHR ''#'') @ ws @ t @ js ''</p>'' @ post"
proof -
  let ?pat = "js ''<p>'' @ replicate k (ch CHR ''#'')"
  let ?X = "ws @ t @ js ''</p>'' @ post"
  from k obtain k' where k': "k = Suc k'" by (cases k) auto
  have ne: "?pat \<noteq> []" and hdp: "hd ?pat = ch CHR ''<''" and tlp: "ch CHR ''<'' \<notin> set (tl ?pat)"
    by (simp_all add: js_def ch_def)
  have sub: "prefix (js ''<p>#'') ?pat" by (simp add: k' js_def)
  have no_pre: "\<not> occurs ?pat pre"
    using quiet_parts(5) [OF pre] occurs_longer [OF sub] by blast
  have no_post: "\<not> occurs ?pat post"
    using quiet_parts(5) [OF post] occurs_longer [OF sub] by blast
  have wsl: "ch CHR ''<'' \<notin> set ws"
    using ws by (auto simp: list_all_iff isSpace_def ch_def)
  have tl': "ch CHR ''<'' \<notin> set t" using t(1) by (simp add: plain_def)
  have hX: "?X = [] \<or> hd ?X \<noteq> ch CHR ''#''"
  proof (cases ws)
    case Nil
    with t(2,3) show ?thesis by (cases t) auto
  next
    case (Cons w ws')
    with ws have "isSpace w" by simp
    then have "w \<noteq> ch CHR ''#''" by (auto simp: isSpace_def ch_def)
    with Cons show ?thesis by simp
  qed
  have a: "\<not> prefix ?pat (js ''<p>'' @ replicate n (ch CHR ''#'') @ ?X)"
    using hash_run_longer [OF k hX] by simp
  have b: "occurs ?pat (replicate n (ch CHR ''#'') @ ?X) = occurs ?pat ?X"
    using ne by (rule occurs_append_skip) (simp only: hdp, simp add: ch_def)
  have c: "occurs ?pat (ws @ t @ js ''</p>'' @ post) = occurs ?pat (t @ js ''</p>'' @ post)"
    using ne by (rule occurs_append_skip) (simp add: hdp wsl)
  have d: "occurs ?pat (t @ js ''</p>'' @ post) = occurs ?pat (js ''</p>'' @ post)"
    using ne by (rule occurs_append_skip) (simp add: hdp tl')
  have e: "\<not> occurs ?pat (js ''</p>'' @ post)"
    using no_post by (simp add: js_def ch_def)
  have "\<not> occurs ?pat (js ''<p>'' @ replicate n (ch CHR ''#'') @ ?X)"
  proof -
    have "occurs ?pat (js ''<p>'' @ replicate n (ch CHR ''#'') @ ?X)
        = (prefix ?pat (js ''<p>'' @ replicate n (ch CHR ''#'') @ ?X)
           \<or> occurs ?pat (replicate n (ch CHR ''#'') @ ?X))"
      by (simp add: js_def ch_def)
    with a b c d e show ?thesis by simp
  qed
  moreover have "js ''<p>'' @ replicate n (ch CHR ''#'') @ ?X
      = ch CHR ''<'' # (js ''p>'' @ replicate n (ch CHR ''#'') @ ?X)" by (simp add: js_def)
  ultimately have "\<not> occurs ?pat (pre @ js ''<p>'' @ replicate n (ch CHR ''#'') @ ?X)"
    using occurs_append_left [OF no_pre tlp, of "js ''p>'' @ replicate n (ch CHR ''#'') @ ?X"]
    by simp
  then show ?thesis unfolding heading_def
    by (intro replaceAll_no_trigger [where pat = ?pat] headingM_pat ne)
qed

lemma headingM_paragraph:
  assumes t: "ch CHR ''<'' \<notin> set t" "oneLine t" "t \<noteq> []" "\<not> isSpace (hd t)"
    and ws: "list_all isSpace ws"
  shows "headingM n p (js ''<p>'' @ replicate n (ch CHR ''#'') @ ws @ t @ js ''</p>'' @ post)
           = Some (3 + n + length ws + length t + 4, t)"
proof -
  have "dotPlusLazy (js ''</p>'') (t @ js ''</p>'' @ post) = Some t"
    using t(3,2) by (rule dotPlusLazy_exact) (simp_all add: js_def t(1))
  then have "wsThenDot (js ''</p>'') (ws @ t @ js ''</p>'' @ post) = Some (length ws, t)"
    using ws t(3,4) by (intro wsThenDot_exact)
  moreover have "afterLit (js ''<p>'' @ replicate n (ch CHR ''#''))
      (js ''<p>'' @ replicate n (ch CHR ''#'') @ ws @ t @ js ''</p>'' @ post)
      = Some (ws @ t @ js ''</p>'' @ post)"
    using afterLit_append [of "js ''<p>'' @ replicate n (ch CHR ''#'')"] by simp
  ultimately show ?thesis by (simp add: headingM_def)
qed

lemma heading_hit:
  assumes pre: "quiet pre" and post: "quiet post" and t: "plain t" "oneLine t" "t \<noteq> []"
    "\<not> isSpace (hd t)" and ws: "list_all isSpace ws" and n: "0 < n"
  shows "heading n (pre @ js ''<p>'' @ replicate n (ch CHR ''#'') @ ws @ t @ js ''</p>'' @ post)
           = pre @ js ''<h'' @ numToString n @ js ''>'' @ t @ js ''</h'' @ numToString n @ js ''>'' @ post"
proof -
  let ?pat = "js ''<p>'' @ replicate n (ch CHR ''#'')"
  let ?S = "js ''<p>'' @ replicate n (ch CHR ''#'') @ ws @ t @ js ''</p>'' @ post"
  let ?p = "if pre = [] then None else Some (last pre)"
  let ?len = "3 + n + length ws + length t + 4"
  from n obtain n' where n': "n = Suc n'" by (cases n) auto
  have tlp: "ch CHR ''<'' \<notin> set (tl ?pat)" by (simp add: js_def ch_def)
  have sub: "prefix (js ''<p>#'') ?pat" by (simp add: n' js_def)
  have no_pre: "\<not> occurs ?pat pre"
    using quiet_parts(5) [OF pre] occurs_longer [OF sub] by blast
  have tl': "ch CHR ''<'' \<notin> set t" using t(1) by (simp add: plain_def)
  have S: "?S = ch CHR ''<'' # (js ''p>'' @ replicate n (ch CHR ''#'') @ ws @ t @ js ''</p>'' @ post)"
    by (simp add: js_def)
  have 1: "matchAll (headingM n) None (pre @ ?S) = map Lit pre @ matchAll (headingM n) ?p ?S"
    unfolding S using headingM_pat no_pre tlp by (rule matchAll_skip_occ)
  have m: "headingM n ?p ?S = Some (?len, t)"
    using tl' t(2,3,4) ws by (rule headingM_paragraph)
  let ?A = "js ''<p>'' @ replicate n (ch CHR ''#'') @ ws @ t @ js ''</p>''"
  have SA: "?S = ?A @ post" by simp
  have len: "?len = length ?A" by (simp add: js_def)
  have td: "take ?len ?S = ?A" "drop ?len ?S = post"
    unfolding SA len by simp_all
  have 2: "matchAll (headingM n) ?p ?S
      = Hit (js ''<p>'' @ replicate n (ch CHR ''#'') @ ws @ t @ js ''</p>'') t
        # matchAll (headingM n) (Some (last (take ?len ?S))) post"
    using matchAll_hit [of "headingM n" ?p ?S ?len t] m td by (simp add: js_def)
  have 3: "matchAll (headingM n) q post = map Lit post" for q
    unfolding n'
    by (rule matchAll_no_trigger [where pat = "js ''<p>#''"])
       (simp_all add: headingM_hash quiet_parts(5) [OF post], simp add: js_def)
  show ?thesis unfolding heading_def replaceAll_def 1 2 3 by (simp add: emit_Lits_comp)
qed

lemma quiet_heading_tag:
  assumes "quiet s" and "n \<le> 6"
  shows "quiet (ch CHR ''<'' # js ''h'' @ numToString n @ js ''>'' @ s)"
    and "quiet (ch CHR ''<'' # js ''/h'' @ numToString n @ js ''>'' @ s)"
  using assms by (simp_all add: numToString.simps js_def ch_def quiet_Cons blockStart_def)

lemma heading_result_quiet:
  assumes "quiet pre" and "quiet post" and "plain t" and "n \<le> 6"
  shows "quiet (pre @ js ''<h'' @ numToString n @ js ''>'' @ t @ js ''</h'' @ numToString n @ js ''>'' @ post)"
  using quiet_wrapped [OF assms(1) plain_quiet [OF assms(3)] assms(2),
          of "js ''h'' @ numToString n @ js ''>''" "js ''/h'' @ numToString n @ js ''>''"]
        quiet_heading_tag [OF _ assms(4)]
  by (simp add: js_def)

lemma processContent_headings_only:
  assumes bt: "ch CHR ''`'' \<notin> set s" and q: "quiet (headings s)"
  shows "processContent s = headings s"
proof -
  from q have "\<not> occurs (js ''__CODE_BLOCK_'') (headings s)" "\<not> anywhere blockStart (headings s)"
    "ch CHR ''`'' \<notin> set (headings s)" "ch CHR ''*'' \<notin> set (headings s)"
    by (simp_all add: quiet_def)
  then show ?thesis
    by (simp add: processContent_no_backtick bt emphasis_noop restore_noop blockPasses_noop)
qed

lemma headings_paragraph:
  assumes pre: "quiet pre" and post: "quiet post" and t: "plain t" "oneLine t" "t \<noteq> []"
    "hd t \<noteq> ch CHR ''#''" "\<not> isSpace (hd t)" and ws: "list_all isSpace ws"
    and n: "1 \<le> n" "n \<le> 6"
  shows "headings (pre @ js ''<p>'' @ replicate n (ch CHR ''#'') @ ws @ t @ js ''</p>'' @ post)
           = pre @ js ''<h'' @ numToString n @ js ''>'' @ t @ js ''</h'' @ numToString n @ js ''>'' @ post"
proof -
  let ?s = "pre @ js ''<p>'' @ replicate n (ch CHR ''#'') @ ws @ t @ js ''</p>'' @ post"
  let ?r = "pre @ js ''<h'' @ numToString n @ js ''>'' @ t @ js ''</h'' @ numToString n @ js ''>'' @ post"
  have above: "n < k \<Longrightarrow> heading k ?s = ?s" for k
    using pre post t(1,3,4,5) ws by (rule heading_above)
  have hit: "heading n ?s = ?r"
    using pre post t(1,2,3,5) ws n(1) by (intro heading_hit) simp_all
  have "\<not> occurs (js ''<p>#'') ?r"
    using heading_result_quiet [OF pre post t(1) n(2)] by (rule quiet_parts(5))
  then have below: "0 < k \<Longrightarrow> heading k ?r = ?r" for k
    by (rule heading_noop)
  from n consider "n = 1" | "n = 2" | "n = 3" | "n = 4" | "n = 5" | "n = 6" by arith
  then show ?thesis
  proof cases
    case 1
    with above [of 2] above [of 3] above [of 4] above [of 5] above [of 6] hit
    show ?thesis by (simp add: headings_def)
  next
    case 2
    with above [of 3] above [of 4] above [of 5] above [of 6] hit below [of 1]
    show ?thesis by (simp add: headings_def)
  next
    case 3
    with above [of 4] above [of 5] above [of 6] hit below [of 1] below [of 2]
    show ?thesis by (simp add: headings_def)
  next
    case 4
    with above [of 5] above [of 6] hit below [of 1] below [of 2] below [of 3]
    show ?thesis by (simp add: headings_def)
  next
    case 5
    with above [of 6] hit below [of 1] below [of 2] below [of 3] below [of 4]
    show ?thesis by (simp add: headings_def)
  next
    case 6
    with hit below [of 1] below [of 2] below [of 3] below [of 4] below [of 5]
    show ?thesis by (simp add: headings_def)
  qed
qed

subsection \<open>Deciding the vocabulary on a concrete text\<close>

text \<open>The definitions that decide the vocabulary on a concrete text.\<close>

lemmas quiet_eval =
  quiet_def plain_def oneLine_def spanText_def blockStart_def blockMarker_def
  isDigit_def isLineTerminator_def js_def ch_def


subsection \<open>Decimal numbers\<close>

lemma numToString_digits: "list_all isDigit (numToString n)"
proof (induction n rule: numToString.induct)
  case (1 n)
  show ?case
  proof (cases "n < 10")
    case True
    then show ?thesis by (subst numToString.simps) (simp add: isDigit_def)
  next
    case False
    have "n mod 10 < 10" by simp
    then have "isDigit (48 + n mod 10)" by (simp add: isDigit_def)
    with False 1 show ?thesis by (subst numToString.simps) simp
  qed
qed




lemma digit_chars:
  assumes "isDigit c"
  shows "c \<noteq> ch CHR ''<''" and "c \<noteq> ch CHR ''*''" and "c \<noteq> ch CHR ''`''" and "c \<noteq> ch CHR ''_''"
  using assms by (simp_all add: isDigit_def ch_def)

lemma numToString_chars:
  "ch CHR ''<'' \<notin> set (numToString k)" "ch CHR ''*'' \<notin> set (numToString k)"
  "ch CHR ''`'' \<notin> set (numToString k)" "ch CHR ''_'' \<notin> set (numToString k)"
  using numToString_digits [of k] by (auto simp: list_all_iff dest: digit_chars)

subsection \<open>The first pass on a document of texts and spans\<close>




subsection \<open>The protected document passes the heading and emphasis passes unchanged\<close>

lemma placeholder_chars:
  "ch CHR ''*'' \<notin> set (placeholder k)" "ch CHR ''`'' \<notin> set (placeholder k)"
  "ch CHR ''<'' \<notin> set (placeholder k)"
  using numToString_chars [of k] by (simp_all add: placeholder_def js_def) (simp_all add: ch_def)

lemma renderIdx_chars:
  assumes "list_all (\<lambda>(t, c). quiet t \<and> spanText c) segs" and "quiet e"
  shows "ch CHR ''*'' \<notin> set (renderIdx k segs e)" and "ch CHR ''`'' \<notin> set (renderIdx k segs e)"
  using assms(1)
proof (induction segs arbitrary: k)
  case Nil
  {
    case 1
    show ?case using assms(2) by (simp add: quiet_def)
  next
    case 2
    show ?case using assms(2) by (simp add: quiet_def)
  }
next
  case (Cons seg segs)
  obtain t c where seg: "seg = (t, c)" by (cases seg)
  {
    case 1
    with seg have "quiet t" and "list_all (\<lambda>(t, c). quiet t \<and> spanText c) segs" by simp_all
    then show ?case using Cons.IH(1) [of "Suc k"] placeholder_chars(1) [of k]
      by (simp add: seg quiet_def)
  next
    case 2
    with seg have "quiet t" and "list_all (\<lambda>(t, c). quiet t \<and> spanText c) segs" by simp_all
    then show ?case using Cons.IH(2) [of "Suc k"] placeholder_chars(2) [of k]
      by (simp add: seg quiet_def)
  }
qed

lemma no_hash_placeholder:
  "occurs (js ''<p>#'') (placeholder k @ r) = occurs (js ''<p>#'') r"
proof -
  have "ch CHR ''<'' \<notin> set (placeholder k)" by (rule placeholder_chars)
  then show ?thesis by (intro occurs_append_skip) (simp_all add: js_def)
qed

lemma renderIdx_no_hash:
  assumes "list_all (\<lambda>(t, c). quiet t \<and> spanText c) segs" and "quiet e"
  shows "\<not> occurs (js ''<p>#'') (renderIdx k segs e)"
  using assms(1)
proof (induction segs arbitrary: k)
  case Nil
  show ?case using assms(2) by (simp add: quiet_parts)
next
  case (Cons seg segs)
  obtain t c where seg: "seg = (t, c)" by (cases seg)
  with Cons.prems have t: "quiet t" and rest: "list_all (\<lambda>(t, c). quiet t \<and> spanText c) segs"
    by simp_all
  let ?R = "renderIdx (Suc k) segs e"
  have ph: "placeholder k @ ?R = ch CHR ''_'' # (js ''_CODE_BLOCK_'' @ numToString k @ js ''__'' @ ?R)"
    by (simp add: placeholder_def js_def)
  have "occurs (js ''<p>#'') (t @ placeholder k @ ?R) = occurs (js ''<p>#'') (placeholder k @ ?R)"
    unfolding ph using quiet_parts(5) [OF t] by (rule no_hash_append) (simp_all add: ch_def)
  then show ?case using Cons.IH [OF rest, of "Suc k"] by (simp add: seg no_hash_placeholder)
qed

subsection \<open>Restoring the spans\<close>





subsection \<open>The restored document passes the block passes unchanged\<close>

lemma render_code_chars:
  assumes "list_all (\<lambda>(t, c). quiet t \<and> spanText c) segs" and "quiet e"
  shows "ch CHR ''`'' \<notin> set (render codeElement segs e)"
  using assms(1)
proof (induction segs)
  case Nil
  show ?case using assms(2) by (simp add: quiet_def)
next
  case (Cons seg segs)
  obtain t c where seg: "seg = (t, c)" by (cases seg)
  have "ch CHR ''`'' \<notin> set (js ''<code>'')" "ch CHR ''`'' \<notin> set (js ''</code>'')"
    by (simp_all add: js_def ch_def)
  then have "ch CHR ''`'' \<notin> set c \<Longrightarrow> ch CHR ''`'' \<notin> set (codeElement c)"
    by (simp add: codeElement_def)
  with Cons seg show ?case
    by (simp add: quiet_def spanText_def)
qed

lemma no_blockStart_code:
  assumes "\<not> anywhere blockStart c" and "\<not> anywhere blockStart r"
  shows "\<not> anywhere blockStart (js ''<code>'' @ c @ js ''</code>'' @ r)"
proof -
  have "\<not> anywhere blockStart (ch CHR ''<'' # js ''/code>'' @ r)"
    using assms(2) by (simp add: js_def ch_def blockStart_def)
  then have "\<not> anywhere blockStart (c @ ch CHR ''<'' # js ''/code>'' @ r)"
    using assms(1) by (simp add: no_blockStart_append_tag)
  then show ?thesis by (simp add: js_def ch_def blockStart_def)
qed

lemma render_code_no_blockStart:
  assumes "list_all (\<lambda>(t, c). quiet t \<and> spanText c) segs" and "quiet e"
  shows "\<not> anywhere blockStart (render codeElement segs e)"
  using assms(1)
proof (induction segs)
  case Nil
  show ?case using assms(2) by (simp add: quiet_def)
next
  case (Cons seg segs)
  obtain t c where seg: "seg = (t, c)" by (cases seg)
  with Cons.prems have t: "\<not> anywhere blockStart t" and c: "\<not> anywhere blockStart c"
    and rest: "list_all (\<lambda>(t, c). quiet t \<and> spanText c) segs"
    by (simp_all add: quiet_def spanText_def)
  let ?R = "render codeElement segs e"
  have "\<not> anywhere blockStart (js ''<code>'' @ c @ js ''</code>'' @ ?R)"
    using c Cons.IH [OF rest] by (rule no_blockStart_code)
  moreover have "js ''<code>'' @ c @ js ''</code>'' @ ?R
      = ch CHR ''<'' # (js ''code>'' @ c @ js ''</code>'' @ ?R)" by (simp add: js_def)
  ultimately have "\<not> anywhere blockStart (t @ js ''<code>'' @ c @ js ''</code>'' @ ?R)"
    using no_blockStart_append_tag [OF t, of "js ''code>'' @ c @ js ''</code>'' @ ?R"] by simp
  moreover have "codeElement c = js ''<code>'' @ c @ js ''</code>''" by (simp add: codeElement_def)
  ultimately show ?case by (simp add: seg)
qed

subsection \<open>Edits\<close>

lemma edit_keep_append: "edit s t \<Longrightarrow> edit (a @ s) (a @ t)"
  by (induction a) (auto intro: edit_keep)

lemma edit_refl: "edit s s"
  using edit_keep_append [OF edit_Nil, of s] by simp







subsection \<open>A global replacement whose matches are edited is an edit\<close>



subsection \<open>The heading and emphasis passes are edits\<close>













subsection \<open>Edits keep the placeholders of a protected document\<close>




subsection \<open>The first pass on any text\<close>




subsection \<open>The inline passes keep every recorded span\<close>






section \<open>Inline code spans\<close>

text \<open>An input with the look-alike of a placeholder loses a span to it: the restoring
  pass reads \<open>__CODE_BLOCK_1__\<close> where the input had \<open>__CODE_BLOCK_1\<close> in front of the only
  span, whose own placeholder is cut.\<close>

lemma placeholder_lookalike_sample:
  "processContent (js ''__CODE_BLOCK_1`a`'') = js ''<code>undefined</code>CODE_BLOCK_0__''"
  by (simp add: pipeline_defs eval_defs)







subsection \<open>The emphasis passes on a document of texts and spans\<close>









section \<open>Emphasis\<close>








lemma underscore_sample_processed:
  "processContent (js ''<p>_emph_ text and my_file__name</p>'')
     = js ''<p>_emph_ text and my_file__name</p>''"
  by (simp add: pipeline_defs eval_defs)

subsection \<open>Where a heading expression cannot start\<close>











subsection \<open>Where a heading expression matches\<close>




subsection \<open>One heading pass on a document of texts and heading paragraphs\<close>





subsection \<open>The heading paragraphs in the whole normaliser\<close>






section \<open>Headings\<close>









end
